theory Spec2Isabelle
  imports Complex_Main "HOL-Library.Word" "HOL-Library.Char_ord" "HOL-Library.List_Lexorder"
    "HOL-Library.AList" "HOL-Library.Multiset"
begin

section \<open>gotree: the tree model and the Booster (transfer bootstrap) supporter\<close>

text \<open>
  This theory embeds the parts of gotree's tree package (tree.go) and of its
  support package (booster.go) that the verified properties talk about.

  Conventions of the embedding.
  \<^item> A Go runtime panic (a nil dereference, an index out of range) is the value
    \<open>None\<close> of an \<open>option\<close> result; a returned \<open>error\<close> is a value of
    the datatype \<open>error\<close>.
  \<^item> The \<open>float64\<close> attributes of an edge (length, support, p-value) are modelled by
    the real numbers they denote (NaN and the infinities are outside the model of the
    edges); \<open>math.Max\<close> is \<open>max\<close>. The cutoff of the supporter and what the worker
    computes from it are values of the datatype \<open>float64\<close> of section ``Floating
    point'', which has NaN, the infinities and the two zeros.
  \<^item> \<open>uint16\<close> is \<open>16 word\<close>: addition and subtraction wrap around.
  \<^item> Code that the embedded functions call and that is not among the sources is either
    modelled from the spec, which is said at the definition, or a parameter of the model:
    the sentinels \<open>NIL_LENGTH\<close>, \<open>NIL_SUPPORT\<close>, \<open>NIL_PVALUE\<close> and
    \<open>NIL_ID\<close>, \<open>Tree.Delete\<close>, and \<open>rand.Perm\<close> of the Go library.
  \<^item> The graph of nodes is acyclic and every edge points from the parent (\<open>left\<close>) to
    the child (\<open>right\<close>). For the traversals a node is therefore the value
    \<open>Node name kids\<close>, where \<open>kids\<close> lists, in the order of the node's
    \<open>neigh\<close>/\<open>br\<close> slices, the edges whose \<open>left\<close> is this node, each with
    the node at its \<open>right\<close>. The neighbour that is the parent is not listed: it is the
    \<open>prev\<close> argument the traversals skip. Edges are objects with identity: a
    node refers to an edge by its address, and the mutable fields of the edges live in a
    store indexed by address, so that the aliasing between a tree and the edge slices
    handed around (\<open>rightEdges\<close>, \<open>edges\<close>, \<open>bootEdges\<close>) is explicit.
  \<^item> The pointer surgery of \<open>removeTip\<close> is embedded separately on a heap of node
    and edge objects (section ``Tip removal'').
\<close>

subsection \<open>Errors\<close>

datatype error =
    ErrNotATip                  \<comment> \<open>"Cannot get bitset index of a non tip node"\<close>
  | ErrIndexNotInit             \<comment> \<open>"No tips in the index, tip name index is not initialized"\<close>
  | ErrNoTipNamed string        \<comment> \<open>"No tip named ... in the index"\<close>
  | ErrBitsetNotInit            \<comment> \<open>"BitSets has not been initialized with ..."\<close>
  | ErrIndexSize                \<comment> \<open>"Tip name index is not initialized or trees do not have the same number of tips"\<close>
  | ErrTipNames                 \<comment> \<open>"Trees do not have the same tip names"\<close>
  | ErrMinDistNegative          \<comment> \<open>"Min dist should be >= 0"\<close>
  | ErrTerminalEdge nat         \<comment> \<open>"any terminal edge should have an exact match in any bootstrap tree (%d)"\<close>
  | ErrMovedLength nat int      \<comment> \<open>"Length of moved species array (%d) is not equal to the minimum distance found (%d)"\<close>
  | ErrTopoDepth                \<comment> \<open>the error of Edge.TopoDepth\<close>
  | ErrStream string            \<comment> \<open>the \<open>Err\<close> of an item of the bootstrap stream\<close>
  | ErrRemoveNotTip             \<comment> \<open>"Cannot remove node, it is not a tip"\<close>
  | ErrNotNeighbor              \<comment> \<open>the error of Node.NodeIndex: the node is not a neighbour\<close>
  | ErrDegreeOne                \<comment> \<open>"After tip removal, this node should not have degre 1 without being the root"\<close>
  | ErrRootNotInternal          \<comment> \<open>"The tree root is not the internal node, but it should be"\<close>
  | ErrN1OneNeighbor            \<comment> \<open>"The neighbor n1 should not have only one neighbor"\<close>
  | ErrN2OneNeighbor            \<comment> \<open>"The neighbor n2 should not have only one neighbor"\<close>
  | ErrTwoTips                  \<comment> \<open>"The tree after tip removal is only made of two tips"\<close>
  | ErrOrientation              \<comment> \<open>"Branches of internal node are not oriented as they should be"\<close>

subsection \<open>Loops\<close>

text \<open>A \<open>for\<close> loop over a slice whose body may panic.\<close>

primrec forM :: "'a list \<Rightarrow> ('a \<Rightarrow> 's \<Rightarrow> 's option) \<Rightarrow> 's \<Rightarrow> 's option" where
  "forM [] f s = Some s"
| "forM (x # xs) f s = (case f x s of None \<Rightarrow> None | Some s' \<Rightarrow> forM xs f s')"

subsection \<open>Bit vectors\<close>

text \<open>
  The bit vector of the external bitset library (spec, section 2: ``fixed-size bit vector
  indexed by tip ordinal; supports set/test/clear/clone/cardinality''). A vector is its
  length and the set of its set bits. As in the library, setting a bit beyond the length
  extends the vector.
\<close>

record bitset =
  blen :: nat
  bits :: "nat set"

definition bitset_New :: "nat \<Rightarrow> bitset" where
  "bitset_New n = \<lparr>blen = n, bits = {}\<rparr>"

definition ClearAll :: "bitset \<Rightarrow> bitset" where
  "ClearAll b = b\<lparr>bits := {}\<rparr>"

definition bitset_Set :: "nat \<Rightarrow> bitset \<Rightarrow> bitset" where
  "bitset_Set i b = \<lparr>blen = max (blen b) (Suc i), bits = insert i (bits b)\<rparr>"

definition Test :: "bitset \<Rightarrow> nat \<Rightarrow> bool" where
  "Test b i = (i \<in> bits b)"

definition Count :: "bitset \<Rightarrow> nat" where
  "Count b = card (bits b)"

subsection \<open>Edges, nodes, trees\<close>

text \<open>
  The sentinels \<open>NIL_LENGTH\<close>, \<open>NIL_SUPPORT\<close>, \<open>NIL_PVALUE\<close> and \<open>NIL_ID\<close> are
  declared in edge.go, which is not among the sources. Modelled from the spec: a branch
  length, support and p-value are floats with a sentinel ``unset''. Their values are
  parameters of the model, collected in a record.
\<close>

record sentinels =
  NIL_LENGTH :: real
  NIL_SUPPORT :: real
  NIL_PVALUE :: real
  NIL_ID :: int

record edge =
  length_e :: real
  support_e :: real
  pvalue_e :: real
  id_e :: int
  bitset_e :: "bitset option"   \<comment> \<open>\<open>None\<close> is the nil pointer\<close>

text \<open>\<open>Tree.NewEdge\<close>\<close>

definition NewEdge :: "sentinels \<Rightarrow> edge" where
  "NewEdge K = \<lparr>length_e = NIL_LENGTH K, support_e = NIL_SUPPORT K, pvalue_e = NIL_PVALUE K,
     id_e = NIL_ID K, bitset_e = None\<rparr>"

datatype node = Node (name: string) (kids: "(nat \<times> node) list")

text \<open>An \<open>*Edge\<close> as the traversals see it: its address and the node at its \<open>right\<close>.\<close>

type_synonym eref = "nat \<times> node"

type_synonym estore = "nat \<Rightarrow> edge"

record tree =
  root_t :: "node option"               \<comment> \<open>\<open>None\<close> is the nil root\<close>
  tipIndex :: "(string \<times> nat) list"    \<comment> \<open>\<open>map[string]uint\<close>, keys distinct\<close>
  est :: estore
  next_e :: nat                         \<comment> \<open>the next free edge address\<close>

text \<open>\<open>NewTree\<close>: nil root, empty tip index.\<close>

definition NewTree :: "sentinels \<Rightarrow> tree" where
  "NewTree K = \<lparr>root_t = None, tipIndex = [], est = (\<lambda>_. NewEdge K), next_e = 0\<rparr>"

definition SetRoot :: "tree \<Rightarrow> node \<Rightarrow> tree" where
  "SetRoot t r = t\<lparr>root_t := Some r\<rparr>"

text \<open>
  Modelled from the spec: \<open>Node.Nneigh\<close> and \<open>Node.Tip\<close> are in node.go, which is
  not among the sources (``a node with exactly one incident edge is a tip''). The number of
  neighbours of a node is the number of its children, plus one for its parent unless it
  is the root (\<open>isroot\<close>).
\<close>

definition Nneigh :: "bool \<Rightarrow> node \<Rightarrow> nat" where
  "Nneigh isroot n = length (kids n) + (if isroot then 0 else 1)"

definition Tip :: "bool \<Rightarrow> node \<Rightarrow> bool" where
  "Tip isroot n = (Nneigh isroot n = 1)"

text \<open>\<open>e.Right().Tip()\<close> for an edge of the tree: the right node always has a parent.\<close>

definition right_tip :: "eref \<Rightarrow> bool" where
  "right_tip e = Tip False (snd e)"

subsection \<open>Traversals\<close>

text \<open>\<open>Tree.Rooted\<close>: \<open>t.root.Nneigh() == 2\<close>, a nil dereference without a root.\<close>

definition Rooted :: "tree \<Rightarrow> bool option" where
  "Rooted t = (case root_t t of None \<Rightarrow> None | Some r \<Rightarrow> Some (Nneigh True r = 2))"

text \<open>
  \<open>Tree.edgesRecur\<close>: the edges below \<open>edge.right\<close>, depth first. The guard
  \<open>len(edge.right.neigh) > 1\<close> only skips a loop over no child.
\<close>

fun edgesRecur :: "node \<Rightarrow> eref list"
  and edgesRecur_kids :: "(nat \<times> node) list \<Rightarrow> eref list" where
  "edgesRecur (Node nm ks) = edgesRecur_kids ks"
| "edgesRecur_kids [] = []"
| "edgesRecur_kids ((a, c) # ks) = (a, c) # edgesRecur c @ edgesRecur_kids ks"

text \<open>\<open>Tree.Edges\<close>: \<open>t.Root().br\<close> dereferences the root.\<close>

definition Edges :: "tree \<Rightarrow> eref list option" where
  "Edges t = (case root_t t of None \<Rightarrow> None | Some r \<Rightarrow> Some (edgesRecur r))"

text \<open>\<open>Tree.tipEdgesRecur\<close> and \<open>Tree.TipEdges\<close>\<close>

definition TipEdges :: "tree \<Rightarrow> eref list option" where
  "TipEdges t = (case root_t t of None \<Rightarrow> None
     | Some r \<Rightarrow> Some (filter right_tip (edgesRecur r)))"

text \<open>
  \<open>Tree.nodesRecur\<close>: with \<open>cur == nil\<close> the traversal starts at the root; the first
  access to \<open>cur.neigh\<close> dereferences it.
\<close>

fun nodesRecur :: "node \<Rightarrow> node list"
  and nodesRecur_kids :: "(nat \<times> node) list \<Rightarrow> node list" where
  "nodesRecur (Node nm ks) = Node nm ks # nodesRecur_kids ks"
| "nodesRecur_kids [] = []"
| "nodesRecur_kids ((a, c) # ks) = nodesRecur c @ nodesRecur_kids ks"

definition Nodes :: "tree \<Rightarrow> node list option" where
  "Nodes t = (case root_t t of None \<Rightarrow> None | Some r \<Rightarrow> Some (nodesRecur r))"

text \<open>\<open>Tree.tipsRecur\<close> and \<open>Tree.Tips\<close>\<close>

fun tipsRecur :: "bool \<Rightarrow> node \<Rightarrow> node list"
  and tipsRecur_kids :: "(nat \<times> node) list \<Rightarrow> node list" where
  "tipsRecur isroot (Node nm ks) =
     (if Tip isroot (Node nm ks) then [Node nm ks] else []) @ tipsRecur_kids ks"
| "tipsRecur_kids [] = []"
| "tipsRecur_kids ((a, c) # ks) = tipsRecur False c @ tipsRecur_kids ks"

definition Tips :: "tree \<Rightarrow> node list option" where
  "Tips t = (case root_t t of None \<Rightarrow> None | Some r \<Rightarrow> Some (tipsRecur True r))"

text \<open>
  \<open>Tree.allTipNamesRecur\<close> and \<open>Tree.AllTipNames\<close>: a node with one neighbour
  contributes its name and is not descended into.
\<close>

fun allTipNamesRecur :: "bool \<Rightarrow> node \<Rightarrow> string list"
  and allTipNamesRecur_kids :: "(nat \<times> node) list \<Rightarrow> string list" where
  "allTipNamesRecur isroot (Node nm ks) =
     (if length ks + (if isroot then 0 else 1) = 1 then [nm] else allTipNamesRecur_kids ks)"
| "allTipNamesRecur_kids [] = []"
| "allTipNamesRecur_kids ((a, c) # ks) = allTipNamesRecur False c @ allTipNamesRecur_kids ks"

definition AllTipNames :: "tree \<Rightarrow> string list option" where
  "AllTipNames t = (case root_t t of None \<Rightarrow> None | Some r \<Rightarrow> Some (allTipNamesRecur True r))"

subsection \<open>Tip index and bitsets\<close>

text \<open>
  \<open>Tree.UpdateTipIndex\<close>: the index is emptied, then every name of the sorted tip
  names is mapped to its position (a name that occurs twice keeps the last position).
  \<open>sort.Strings\<close> orders byte-wise, as the lexicographic order on \<open>string\<close> does.
\<close>

definition index_of_names :: "string list \<Rightarrow> (string \<times> nat) list" where
  "index_of_names names = foldl (\<lambda>m (i, n). AList.update n i m) [] (enumerate 0 names)"

definition SortedTips :: "tree \<Rightarrow> string list option" where
  "SortedTips t = map_option sort (AllTipNames t)"

definition UpdateTipIndex :: "tree \<Rightarrow> tree option" where
  "UpdateTipIndex t = (case SortedTips t of None \<Rightarrow> None
     | Some names \<Rightarrow> Some (t\<lparr>tipIndex := index_of_names names\<rparr>))"

text \<open>\<open>Tree.TipIndex\<close> and \<open>Tree.tipIndexNode\<close>\<close>

definition TipIndex :: "(string \<times> nat) list \<Rightarrow> string \<Rightarrow> error + nat" where
  "TipIndex ix nm = (if length ix = 0 then Inl ErrIndexNotInit
     else case map_of ix nm of None \<Rightarrow> Inl (ErrNoTipNamed nm) | Some v \<Rightarrow> Inr v)"

definition tipIndexNode :: "(string \<times> nat) list \<Rightarrow> bool \<Rightarrow> node \<Rightarrow> error + nat" where
  "tipIndexNode ix isroot n = (if Nneigh isroot n \<noteq> 1 then Inl ErrNotATip
     else TipIndex ix (name n))"

text \<open>
  \<open>Tree.clearBitSetsRecur\<close>: every edge below the node gets a fresh bitset of
  \<open>ntip\<close> bits. \<open>Tree.ClearBitSets\<close> fails on an empty index.
\<close>

fun clearBitSetsRecur :: "node \<Rightarrow> nat \<Rightarrow> estore \<Rightarrow> estore"
  and clearBitSetsRecur_kids :: "(nat \<times> node) list \<Rightarrow> nat \<Rightarrow> estore \<Rightarrow> estore" where
  "clearBitSetsRecur (Node nm ks) ntip s = clearBitSetsRecur_kids ks ntip s"
| "clearBitSetsRecur_kids [] ntip s = s"
| "clearBitSetsRecur_kids ((a, child) # ks) ntip s =
     clearBitSetsRecur_kids ks ntip
       (clearBitSetsRecur child ntip (s(a := (s a)\<lparr>bitset_e := Some (bitset_New ntip)\<rparr>)))"

definition ClearBitSets :: "tree \<Rightarrow> (tree \<times> error option) option" where
  "ClearBitSets t =
     (if length (tipIndex t) = 0 then Some (t, Some ErrIndexNotInit)
      else case root_t t of None \<Rightarrow> None
        | Some r \<Rightarrow> Some (t\<lparr>est := clearBitSetsRecur r (length (tipIndex t)) (est t)\<rparr>, None))"

text \<open>
  The loop \<open>for _, e := range *rightEdges { e.bitset.Set(i) }\<close>; an edge of the stack
  without a bitset would be a nil dereference.
\<close>

definition set_bit_of :: "nat \<Rightarrow> nat \<Rightarrow> estore \<Rightarrow> estore option" where
  "set_bit_of i a s = (case bitset_e (s a) of None \<Rightarrow> None
     | Some b \<Rightarrow> Some (s(a := (s a)\<lparr>bitset_e := Some (bitset_Set i b)\<rparr>)))"

text \<open>
  \<open>Tree.fillRightBitSet\<close>. \<open>a\<close> is the address of \<open>currentEdge\<close>, the node its
  \<open>right\<close>; \<open>rightEdges\<close> is the stack of the edges above, \<open>currentEdge\<close> on top.
  The result is the store after the call and the returned error.
\<close>

fun fillRightBitSet ::
    "(string \<times> nat) list \<Rightarrow> nat \<Rightarrow> node \<Rightarrow> nat list \<Rightarrow> estore \<Rightarrow> (estore \<times> error option) option"
  and fillRightBitSet_kids ::
    "(string \<times> nat) list \<Rightarrow> (nat \<times> node) list \<Rightarrow> nat list \<Rightarrow> estore \<Rightarrow> (estore \<times> error option) option"
  where
  "fillRightBitSet ix a (Node nm ks) rightEdges s =
     (case bitset_e (s a) of
        None \<Rightarrow> Some (s, Some ErrBitsetNotInit)
      | Some b \<Rightarrow>
        (let s1 = s(a := (s a)\<lparr>bitset_e := Some (ClearAll b)\<rparr>) in
         if Nneigh False (Node nm ks) = 1
         then (case tipIndexNode ix False (Node nm ks) of
                 Inl err \<Rightarrow> Some (s1, Some err)
               | Inr i \<Rightarrow> map_option (\<lambda>s2. (s2, None)) (forM rightEdges (set_bit_of i) s1))
         else fillRightBitSet_kids ix ks rightEdges s1))"
| "fillRightBitSet_kids ix [] rightEdges s = Some (s, None)"
| "fillRightBitSet_kids ix ((a2, child) # ks) rightEdges s =
     (case fillRightBitSet ix a2 child (rightEdges @ [a2]) s of
        None \<Rightarrow> None
      | Some (s1, Some err) \<Rightarrow> Some (s1, Some err)
      | Some (s1, None) \<Rightarrow> fillRightBitSet_kids ix ks rightEdges s1)"

text \<open>
  \<open>Tree.UpdateBitSet\<close>: for every edge of the root, the stack is reset to that edge and
  the subtree is filled; the first error is returned.
\<close>

fun UpdateBitSet_edges ::
  "(string \<times> nat) list \<Rightarrow> (nat \<times> node) list \<Rightarrow> estore \<Rightarrow> (estore \<times> error option) option" where
  "UpdateBitSet_edges ix [] s = Some (s, None)"
| "UpdateBitSet_edges ix ((a, child) # ks) s =
     (case fillRightBitSet ix a child [a] s of
        None \<Rightarrow> None
      | Some (s1, Some err) \<Rightarrow> Some (s1, Some err)
      | Some (s1, None) \<Rightarrow> UpdateBitSet_edges ix ks s1)"

definition UpdateBitSet :: "tree \<Rightarrow> (tree \<times> error option) option" where
  "UpdateBitSet t = (case root_t t of None \<Rightarrow> None
     | Some r \<Rightarrow> map_option (\<lambda>(s, er). (t\<lparr>est := s\<rparr>, er))
         (UpdateBitSet_edges (tipIndex t) (kids r) (est t)))"

text \<open>
  \<open>Tree.ReinitIndexes\<close>. The errors of \<open>ClearBitSets\<close> and \<open>UpdateBitSet\<close> are
  dropped, as in the source. \<open>ComputeDepths\<close> only writes the \<open>depth\<close> field of the
  nodes, which no function of this theory reads; the field is not modelled.
\<close>

definition ReinitIndexes :: "tree \<Rightarrow> tree option" where
  "ReinitIndexes t =
     (case UpdateTipIndex t of None \<Rightarrow> None
      | Some t1 \<Rightarrow>
        (case ClearBitSets t1 of None \<Rightarrow> None
         | Some (t2, _) \<Rightarrow>
           (case UpdateBitSet t2 of None \<Rightarrow> None
            | Some (t3, _) \<Rightarrow> Some t3)))"

text \<open>
  \<open>Tree.CompareTipIndexes\<close>: nil (\<open>None\<close>) when both indexes are non-empty, of the
  same size and with the same keys.
\<close>

definition CompareTipIndexes :: "tree \<Rightarrow> tree \<Rightarrow> error option" where
  "CompareTipIndexes t t2 =
     (if length (tipIndex t) = 0 \<or> length (tipIndex t2) = 0
         \<or> length (tipIndex t) \<noteq> length (tipIndex t2) then Some ErrIndexSize
      else if \<exists>k \<in> set (map fst (tipIndex t)). map_of (tipIndex t2) k = None then Some ErrTipNames
      else if \<exists>k \<in> set (map fst (tipIndex t2)). map_of (tipIndex t) k = None then Some ErrTipNames
      else None)"

subsection \<open>Floating point\<close>

text \<open>
  A \<open>float64\<close> is NaN, an infinity or a zero with its sign bit (\<open>True\<close> is negative),
  or a non-zero real number: rounding is not modelled, the special values are. A
  comparison with NaN is false; the two zeros compare equal.
\<close>

datatype float64 = NaN | Inf bool | Zero bool | Num real

text \<open>The float of a real number, and \<open>float64(i)\<close> for an \<open>int\<close>.\<close>

definition f64_of_real :: "real \<Rightarrow> float64" where
  "f64_of_real r = (if r = 0 then Zero False else Num r)"

definition float64_of_int :: "int \<Rightarrow> float64" where
  "float64_of_int i = f64_of_real (real_of_int i)"

text \<open>The sign bit, and the order: the place of a value that is not NaN on the real line.\<close>

fun f64_sign :: "float64 \<Rightarrow> bool" where
  "f64_sign NaN = False"
| "f64_sign (Inf s) = s"
| "f64_sign (Zero s) = s"
| "f64_sign (Num r) = (r < 0)"

fun f64_rank :: "float64 \<Rightarrow> int \<times> real" where
  "f64_rank NaN = (0, 0)"
| "f64_rank (Inf s) = (if s then -1 else 1, 0)"
| "f64_rank (Zero s) = (0, 0)"
| "f64_rank (Num r) = (0, r)"

definition f64_lt :: "float64 \<Rightarrow> float64 \<Rightarrow> bool" where
  "f64_lt a b = (a \<noteq> NaN \<and> b \<noteq> NaN
     \<and> (fst (f64_rank a) < fst (f64_rank b)
        \<or> fst (f64_rank a) = fst (f64_rank b) \<and> snd (f64_rank a) < snd (f64_rank b)))"

definition f64_le :: "float64 \<Rightarrow> float64 \<Rightarrow> bool" where
  "f64_le a b = (a \<noteq> NaN \<and> b \<noteq> NaN \<and> \<not> f64_lt b a)"

text \<open>
  Negation, addition, subtraction and division, with the special cases of IEEE 754: an
  operation on NaN, \<open>Inf - Inf\<close>, \<open>Inf / Inf\<close> and \<open>0 / 0\<close> give NaN, a non-zero value
  divided by a zero gives an infinity.
\<close>

fun f64_neg :: "float64 \<Rightarrow> float64" where
  "f64_neg NaN = NaN"
| "f64_neg (Inf s) = Inf (\<not> s)"
| "f64_neg (Zero s) = Zero (\<not> s)"
| "f64_neg (Num r) = Num (- r)"

fun f64_add :: "float64 \<Rightarrow> float64 \<Rightarrow> float64" where
  "f64_add NaN b = NaN"
| "f64_add a NaN = NaN"
| "f64_add (Inf s) (Inf s') = (if s = s' then Inf s else NaN)"
| "f64_add (Inf s) b = Inf s"
| "f64_add a (Inf s) = Inf s"
| "f64_add (Zero s) (Zero s') = Zero (s \<and> s')"
| "f64_add (Zero s) (Num y) = Num y"
| "f64_add (Num x) (Zero s) = Num x"
| "f64_add (Num x) (Num y) = f64_of_real (x + y)"

definition f64_sub :: "float64 \<Rightarrow> float64 \<Rightarrow> float64" where
  "f64_sub a b = f64_add a (f64_neg b)"

fun f64_div :: "float64 \<Rightarrow> float64 \<Rightarrow> float64" where
  "f64_div NaN b = NaN"
| "f64_div a NaN = NaN"
| "f64_div (Inf s) (Inf s') = NaN"
| "f64_div (Zero s) (Zero s') = NaN"
| "f64_div (Inf s) b = Inf (s \<noteq> f64_sign b)"
| "f64_div a (Zero s) = Inf (f64_sign a \<noteq> s)"
| "f64_div (Zero s) b = Zero (s \<noteq> f64_sign b)"
| "f64_div a (Inf s) = Zero (f64_sign a \<noteq> s)"
| "f64_div (Num x) (Num y) = Num (x / y)"

text \<open>\<open>math.Ceil\<close>: the special values are returned as they are.\<close>

fun f64_ceil :: "float64 \<Rightarrow> float64" where
  "f64_ceil (Num r) = (if \<lceil>r\<rceil> = 0 then Zero (r < 0) else Num (real_of_int \<lceil>r\<rceil>))"
| "f64_ceil a = a"

text \<open>
  \<open>int(x)\<close> for a \<open>float64\<close>: the fraction is discarded. Go leaves the result
  implementation-dependent when the value does not fit (NaN, an infinity, a magnitude of
  \<open>2^63\<close> or more); the theory takes what the amd64 compiler gives, the least
  \<open>int64\<close>.
\<close>

fun int_of_float64 :: "float64 \<Rightarrow> int" where
  "int_of_float64 (Zero s) = 0"
| "int_of_float64 (Num r) =
     (let t = (if r < 0 then \<lceil>r\<rceil> else \<lfloor>r\<rfloor>)
      in if - (2 ^ 63) \<le> t \<and> t < 2 ^ 63 then t else - (2 ^ 63))"
| "int_of_float64 a = - (2 ^ 63)"

subsection \<open>The Booster supporter\<close>

record BoosterSupporter =
  currentTree :: int
  stop :: bool
  silent :: bool
  computeMovedSpecies :: bool
  computeTransferPerBranches :: bool
  computeHighTransferPerBranches :: bool
  movedSpeciesCutoff :: float64
  normalizeByExpected :: bool

text \<open>\<open>NewBoosterSupporter\<close>: the two guards on the cutoff, in the order of the source.\<close>

definition NewBoosterSupporter ::
  "bool \<Rightarrow> bool \<Rightarrow> bool \<Rightarrow> bool \<Rightarrow> float64 \<Rightarrow> bool \<Rightarrow> BoosterSupporter" where
  "NewBoosterSupporter sil cms ctpb chtpb cutoff nbe =
     (let cutoff1 = (if f64_lt cutoff (Zero False) then Num 1 else cutoff);
          cutoff2 = (if f64_lt (Num 1) cutoff1 then Num 1 else cutoff1)
      in \<lparr>currentTree = 0, stop = False, silent = sil, computeMovedSpecies = cms,
          computeTransferPerBranches = ctpb, computeHighTransferPerBranches = chtpb,
          movedSpeciesCutoff = cutoff2, normalizeByExpected = nbe\<rparr>)"

subsection \<open>Matrices\<close>

text \<open>
  \<open>[][]uint16\<close>. An access \<open>m[i][j]\<close> with Go \<open>int\<close> indices panics unless
  \<open>cell_ok m i j\<close>.
\<close>

type_synonym matrix = "16 word list list"

definition cell_ok :: "matrix \<Rightarrow> int \<Rightarrow> int \<Rightarrow> bool" where
  "cell_ok m i j = (0 \<le> i \<and> nat i < length m \<and> 0 \<le> j \<and> nat j < length (m ! nat i))"

definition rd :: "matrix \<Rightarrow> int \<Rightarrow> int \<Rightarrow> 16 word" where
  "rd m i j = m ! nat i ! nat j"

definition wr :: "matrix \<Rightarrow> int \<Rightarrow> int \<Rightarrow> 16 word \<Rightarrow> matrix" where
  "wr m i j v = m[nat i := (m ! nat i)[nat j := v]]"

text \<open>The scratch buffers of one worker (\<open>ComputeValue\<close>'s local slices).\<close>

record dp =
  i_matrix :: matrix
  c_matrix :: matrix
  hamming :: matrix
  min_dist :: "16 word list"
  min_dist_edge :: "int list"

subsection \<open>First pass: post-order traversal of the reference tree\<close>

text \<open>
  The three loops over \<open>bootEdges\<close> of \<open>update_i_c_post_order_ref_tree\<close>; \<open>be_id\<close>
  is the position in the slice. Only terminal edges of the bootstrap tree are scanned.
\<close>

definition ref_tip_cell :: "string \<Rightarrow> int \<Rightarrow> nat \<times> eref \<Rightarrow> dp \<Rightarrow> dp option" where
  "ref_tip_cell nm edge_id = (\<lambda>(be_id, be) st.
     if \<not> right_tip be then Some st
     else if \<not> (cell_ok (i_matrix st) edge_id (int be_id)
               \<and> cell_ok (c_matrix st) edge_id (int be_id)) then None
     else if nm \<noteq> name (snd be)
       then Some (st\<lparr>i_matrix := wr (i_matrix st) edge_id (int be_id) 0,
                     c_matrix := wr (c_matrix st) edge_id (int be_id) 1\<rparr>)
       else Some (st\<lparr>i_matrix := wr (i_matrix st) edge_id (int be_id) 1,
                     c_matrix := wr (c_matrix st) edge_id (int be_id) 0\<rparr>))"

definition ref_init_cell :: "int \<Rightarrow> nat \<times> eref \<Rightarrow> dp \<Rightarrow> dp option" where
  "ref_init_cell edge_id = (\<lambda>(be_id, be) st.
     if \<not> right_tip be then Some st
     else if \<not> (cell_ok (i_matrix st) edge_id (int be_id)
               \<and> cell_ok (c_matrix st) edge_id (int be_id)) then None
     else Some (st\<lparr>i_matrix := wr (i_matrix st) edge_id (int be_id) 0,
                   c_matrix := wr (c_matrix st) edge_id (int be_id) 1\<rparr>))"

text \<open>
  OR on the row of \<open>I\<close>, AND on the row of \<open>C\<close>; \<open>||\<close> and \<open>&&\<close> read their second
  operand only when the first does not decide.
\<close>

definition or_cell :: "matrix \<Rightarrow> int \<Rightarrow> int \<Rightarrow> int \<Rightarrow> matrix option" where
  "or_cell m edge_id edge_id2 j =
     (if \<not> cell_ok m edge_id j then None
      else if rd m edge_id j \<noteq> 0 then Some (wr m edge_id j 1)
      else if \<not> cell_ok m edge_id2 j then None
      else if rd m edge_id2 j \<noteq> 0 then Some (wr m edge_id j 1)
      else Some (wr m edge_id j 0))"

definition and_cell :: "matrix \<Rightarrow> int \<Rightarrow> int \<Rightarrow> int \<Rightarrow> matrix option" where
  "and_cell m edge_id edge_id2 j =
     (if \<not> cell_ok m edge_id j then None
      else if rd m edge_id j = 0 then Some (wr m edge_id j 0)
      else if \<not> cell_ok m edge_id2 j then None
      else if rd m edge_id2 j \<noteq> 0 then Some (wr m edge_id j 1)
      else Some (wr m edge_id j 0))"

definition ref_merge_cell :: "int \<Rightarrow> int \<Rightarrow> nat \<times> eref \<Rightarrow> dp \<Rightarrow> dp option" where
  "ref_merge_cell edge_id edge_id2 = (\<lambda>(be_id, be) st.
     if \<not> right_tip be then Some st
     else case or_cell (i_matrix st) edge_id edge_id2 (int be_id) of None \<Rightarrow> None
       | Some im \<Rightarrow>
         (case and_cell (c_matrix st) edge_id edge_id2 (int be_id) of None \<Rightarrow> None
          | Some cm \<Rightarrow> Some (st\<lparr>i_matrix := im, c_matrix := cm\<rparr>)))"

text \<open>
  \<open>update_i_c_post_order_ref_tree\<close>. \<open>rs\<close> is the edge store of the reference tree,
  \<open>a\<close> the address of the edge \<open>prev.Edges()[curidx]\<close> that leads to \<open>current\<close>. The
  second function is the loop over the children of \<open>current\<close>.
\<close>

fun update_i_c_post_order_ref_tree ::
    "estore \<Rightarrow> eref list \<Rightarrow> nat \<Rightarrow> node \<Rightarrow> dp \<Rightarrow> dp option"
  and update_ref_kids ::
    "estore \<Rightarrow> eref list \<Rightarrow> int \<Rightarrow> (nat \<times> node) list \<Rightarrow> dp \<Rightarrow> dp option" where
  "update_i_c_post_order_ref_tree rs bootEdges a (Node nm ks) st =
     (if Tip False (Node nm ks)
      then forM (enumerate 0 bootEdges) (ref_tip_cell nm (id_e (rs a))) st
      else case forM (enumerate 0 bootEdges) (ref_init_cell (id_e (rs a))) st of
             None \<Rightarrow> None
           | Some st1 \<Rightarrow> update_ref_kids rs bootEdges (id_e (rs a)) ks st1)"
| "update_ref_kids rs bootEdges edge_id [] st = Some st"
| "update_ref_kids rs bootEdges edge_id ((a2, child) # ks) st =
     (case update_i_c_post_order_ref_tree rs bootEdges a2 child st of
        None \<Rightarrow> None
      | Some st1 \<Rightarrow>
        (case forM (enumerate 0 bootEdges) (ref_merge_cell edge_id (id_e (rs a2))) st1 of
           None \<Rightarrow> None
         | Some st2 \<Rightarrow> update_ref_kids rs bootEdges edge_id ks st2))"

text \<open>\<open>Update_all_i_c_post_order_ref_tree\<close>: one traversal per neighbour of the root.\<close>

definition Update_all_i_c_post_order_ref_tree :: "tree \<Rightarrow> eref list \<Rightarrow> dp \<Rightarrow> dp option" where
  "Update_all_i_c_post_order_ref_tree refTree bootEdges st =
     (case root_t refTree of None \<Rightarrow> None
      | Some r \<Rightarrow> forM (kids r)
          (\<lambda>(a, child). update_i_c_post_order_ref_tree (est refTree) bootEdges a child) st)"

subsection \<open>Second pass: post-order traversal of the bootstrap tree\<close>

text \<open>
  Modelled from the spec: \<open>Edge.NumTipsRight\<close> is in edge.go, which is not among the
  sources. \<open>tipsRight\<close> is the number of bits set in the edge's bitset; without a bitset
  the call returns an error (and -1), which the caller drops.
\<close>

definition NumTipsRight :: "edge \<Rightarrow> int \<times> error option" where
  "NumTipsRight e = (case bitset_e e of None \<Rightarrow> (-1, Some ErrBitsetNotInit)
     | Some b \<Rightarrow> (int (Count b), None))"

definition boot_zero_cell :: "int \<Rightarrow> nat \<Rightarrow> dp \<Rightarrow> dp option" where
  "boot_zero_cell edge_id edge_id3 st =
     (if \<not> (cell_ok (i_matrix st) (int edge_id3) edge_id
           \<and> cell_ok (c_matrix st) (int edge_id3) edge_id) then None
      else Some (st\<lparr>i_matrix := wr (i_matrix st) (int edge_id3) edge_id 0,
                    c_matrix := wr (c_matrix st) (int edge_id3) edge_id 0\<rparr>))"

definition add_cell :: "matrix \<Rightarrow> int \<Rightarrow> int \<Rightarrow> int \<Rightarrow> matrix option" where
  "add_cell m i j j2 =
     (if \<not> (cell_ok m i j \<and> cell_ok m i j2) then None
      else Some (wr m i j (rd m i j + rd m i j2)))"

definition boot_add_cell :: "int \<Rightarrow> int \<Rightarrow> nat \<Rightarrow> dp \<Rightarrow> dp option" where
  "boot_add_cell edge_id edge_id2 edge_id3 st =
     (case add_cell (i_matrix st) (int edge_id3) edge_id edge_id2 of None \<Rightarrow> None
      | Some im \<Rightarrow>
        (case add_cell (c_matrix st) (int edge_id3) edge_id edge_id2 of None \<Rightarrow> None
         | Some cm \<Rightarrow> Some (st\<lparr>i_matrix := im, c_matrix := cm\<rparr>)))"

text \<open>
  The value stored in \<open>hamming[edge_id3][edge_id]\<close>: the sum in \<open>uint16\<close>, then the
  fold against \<open>uint16(ntips)/2\<close>.
\<close>

definition hamming_value :: "nat \<Rightarrow> int \<Rightarrow> 16 word \<Rightarrow> 16 word \<Rightarrow> 16 word" where
  "hamming_value ntips e3numtips c i =
     (let h = word_of_int e3numtips + c - i
      in if h > word_of_nat ntips div 2 then word_of_nat ntips - h else h)"

definition boot_hamming_cell :: "estore \<Rightarrow> nat \<Rightarrow> int \<Rightarrow> nat \<times> eref \<Rightarrow> dp \<Rightarrow> dp option" where
  "boot_hamming_cell rs ntips edge_id = (\<lambda>(edge_id3, e3) st.
     if \<not> (cell_ok (hamming st) (int edge_id3) edge_id
           \<and> cell_ok (c_matrix st) (int edge_id3) edge_id
           \<and> cell_ok (i_matrix st) (int edge_id3) edge_id
           \<and> edge_id3 < length (min_dist st)) then None
     else
       let h = hamming_value ntips (fst (NumTipsRight (rs (fst e3))))
                 (rd (c_matrix st) (int edge_id3) edge_id) (rd (i_matrix st) (int edge_id3) edge_id);
           st1 = st\<lparr>hamming := wr (hamming st) (int edge_id3) edge_id h\<rparr>
       in if h < min_dist st ! edge_id3
          then (if edge_id3 < length (min_dist_edge st)
                then Some (st1\<lparr>min_dist := (min_dist st)[edge_id3 := h],
                                min_dist_edge := (min_dist_edge st)[edge_id3 := edge_id]\<rparr>)
                else None)
          else Some st1)"

text \<open>
  \<open>update_i_c_post_order_boot_tree\<close>. \<open>rs\<close> and \<open>bs\<close> are the edge stores of the
  reference and of the bootstrap tree, \<open>edges\<close> the edges of the reference tree, \<open>a\<close> the
  address of the bootstrap edge that leads to \<open>current\<close>.
\<close>

fun update_i_c_post_order_boot_tree ::
    "estore \<Rightarrow> nat \<Rightarrow> eref list \<Rightarrow> estore \<Rightarrow> nat \<Rightarrow> node \<Rightarrow> dp \<Rightarrow> dp option"
  and update_boot_kids ::
    "estore \<Rightarrow> nat \<Rightarrow> eref list \<Rightarrow> estore \<Rightarrow> int \<Rightarrow> (nat \<times> node) list \<Rightarrow> dp \<Rightarrow> dp option" where
  "update_i_c_post_order_boot_tree rs ntips edges bs a (Node nm ks) st =
     (case (if \<not> Tip False (Node nm ks)
            then (case forM [0..<length edges] (boot_zero_cell (id_e (bs a))) st of
                    None \<Rightarrow> None
                  | Some st1 \<Rightarrow> update_boot_kids rs ntips edges bs (id_e (bs a)) ks st1)
            else Some st) of
        None \<Rightarrow> None
      | Some st2 \<Rightarrow> forM (enumerate 0 edges) (boot_hamming_cell rs ntips (id_e (bs a))) st2)"
| "update_boot_kids rs ntips edges bs edge_id [] st = Some st"
| "update_boot_kids rs ntips edges bs edge_id ((a2, child) # ks) st =
     (case update_i_c_post_order_boot_tree rs ntips edges bs a2 child st of
        None \<Rightarrow> None
      | Some st1 \<Rightarrow>
        (case forM [0..<length edges] (boot_add_cell edge_id (id_e (bs a2))) st1 of
           None \<Rightarrow> None
         | Some st2 \<Rightarrow> update_boot_kids rs ntips edges bs edge_id ks st2))"

text \<open>
  The checks at the end of \<open>Update_all_i_c_post_order_boot_tree\<close>: the loop over the
  reference edges returns at the first error.
\<close>

fun check_min_dist :: "estore \<Rightarrow> eref list \<Rightarrow> 16 word list \<Rightarrow> error option option" where
  "check_min_dist rs [] md = Some None"
| "check_min_dist rs (e # es) md =
     (let i = id_e (rs (fst e)) in
      if \<not> (0 \<le> i \<and> nat i < length md) then None
      else if md ! nat i < 0 then Some (Some ErrMinDistNegative)
      else if right_tip e \<and> md ! nat i \<noteq> 0 then Some (Some (ErrTerminalEdge (unat (md ! nat i))))
      else check_min_dist rs es md)"

text \<open>
  \<open>Update_all_i_c_post_order_boot_tree\<close>: the buffers after the call, and the returned
  error (\<open>None\<close> is nil).
\<close>

definition Update_all_i_c_post_order_boot_tree ::
  "estore \<Rightarrow> nat \<Rightarrow> eref list \<Rightarrow> tree \<Rightarrow> dp \<Rightarrow> (dp \<times> error option) option" where
  "Update_all_i_c_post_order_boot_tree rs ntips edges bootTree st =
     (case root_t bootTree of None \<Rightarrow> None
      | Some r \<Rightarrow>
        (case forM (kids r) (\<lambda>(a, child).
                 update_i_c_post_order_boot_tree rs ntips edges (est bootTree) a child) st of
           None \<Rightarrow> None
         | Some st1 \<Rightarrow>
           (case check_min_dist rs edges (min_dist st1) of None \<Rightarrow> None
            | Some er \<Rightarrow> Some (st1, er))))"

subsection \<open>The worker: \<open>BoosterSupporter.ComputeValue\<close>\<close>

text \<open>
  Modelled from the spec: \<open>Edge.TopoDepth\<close> is in edge.go, which is not among the
  sources: ``the number of tips on the smaller side of its bipartition, i.e.
  \<open>min(popcount(bitset), tipcount - popcount(bitset))\<close>'', an error without a bitset.
\<close>

definition TopoDepth :: "edge \<Rightarrow> error + int" where
  "TopoDepth e = (case bitset_e e of None \<Rightarrow> Inl ErrTopoDepth
     | Some b \<Rightarrow> Inr (min (int (Count b)) (int (blen b) - int (Count b))))"

text \<open>
  \<open>speciesToMove\<close>: the positions where the two bitsets differ, or those where they
  agree, whichever list is shorter (ties: the second); its length must be the distance \<open>d\<close>.
\<close>

definition speciesToMove :: "edge \<Rightarrow> edge \<Rightarrow> int \<Rightarrow> (error + nat list) option" where
  "speciesToMove e be d =
     (case bitset_e e of None \<Rightarrow> None
      | Some b \<Rightarrow>
        (case (if blen b = 0 then Some (bitset_New 0) else bitset_e be) of None \<Rightarrow> None
         | Some bb \<Rightarrow>
           (let diff = filter (\<lambda>i. Test b i \<noteq> Test bb i) [0..<blen b];
                equ = filter (\<lambda>i. Test b i = Test bb i) [0..<blen b]
            in if length diff < length equ
               then (if int (length diff) \<noteq> d then Some (Inl (ErrMovedLength (length diff) d))
                     else Some (Inr diff))
               else (if int (length equ) \<noteq> d then Some (Inl (ErrMovedLength (length equ) d))
                     else Some (Inr equ)))))"

text \<open>An item of the bootstrap stream (\<open>tree.Trees\<close>).\<close>

record Trees =
  Tree :: "tree option"
  Id_t :: int
  Err :: "error option"

text \<open>
  The local variables of \<open>ComputeValue\<close> that live across the loop over the stream, the
  three output channels (the values sent, in order) and the counter
  \<open>supporter.currentTree\<close>. Writes to the log and to the terminal are not modelled.
\<close>

record cv_state =
  bufs :: dp
  vals :: "int list"
  movedSpecies :: "int list"
  nb_branches_close :: int
  taxaTransferedPerBranch :: "nat list option list"
  valChan :: "(int \<times> nat \<times> bool) list"
  speciesChannel :: "(nat \<times> float64) list"
  taxPerBranchChannel :: "nat list option list list"
  processed :: int

text \<open>
  The loop that resets \<open>min_dist\<close> and \<open>min_dist_edge\<close> and grows the rows of the three
  matrices; all five slices have \<open>len(edges)\<close> entries.
\<close>

definition alloc_row :: "nat \<Rightarrow> nat \<Rightarrow> nat \<Rightarrow> dp \<Rightarrow> dp" where
  "alloc_row ntips nboot i b =
     (let b1 = b\<lparr>min_dist := (min_dist b)[i := word_of_nat ntips],
                 min_dist_edge := (min_dist_edge b)[i := -1]\<rparr>
      in if nboot > length (i_matrix b ! i)
         then b1\<lparr>i_matrix := (i_matrix b)[i := replicate nboot 0],
                  c_matrix := (c_matrix b)[i := replicate nboot 0],
                  hamming := (hamming b)[i := replicate nboot 0]\<rparr>
         else b1)"

definition alloc_rows :: "nat \<Rightarrow> nat \<Rightarrow> nat \<Rightarrow> dp \<Rightarrow> dp" where
  "alloc_rows nedges ntips nboot b = fold (alloc_row ntips nboot) [0..<nedges] b"

text \<open>\<open>for i, e := range bootEdges { e.SetId(i) }\<close>\<close>

definition set_ids :: "eref list \<Rightarrow> estore \<Rightarrow> estore" where
  "set_ids bootEdges s =
     fold (\<lambda>(i, e) s. s(fst e := (s (fst e))\<lparr>id_e := int i\<rparr>)) (enumerate 0 bootEdges) s"

text \<open>\<open>movedSpecies[e.Value.(uint)]++\<close> for every element of the list.\<close>

definition incr_moved :: "nat \<Rightarrow> int list \<Rightarrow> int list option" where
  "incr_moved x ms = (if x < length ms then Some (ms[x := ms ! x + 1]) else None)"

text \<open>
  The body of the loop over the reference edges that sends the values. The second
  component of the result is the error of an early \<open>return\<close>.
\<close>

definition emit_edge ::
  "BoosterSupporter \<Rightarrow> estore \<Rightarrow> eref list \<Rightarrow> estore \<Rightarrow> nat \<times> eref \<Rightarrow> cv_state
     \<Rightarrow> (cv_state \<times> error option) option" where
  "emit_edge spt rs bootEdges bs = (\<lambda>(i, e) st.
     if right_tip e
     then Some (st\<lparr>taxaTransferedPerBranch := (taxaTransferedPerBranch st)[i := Some []]\<rparr>, None)
     else if \<not> (i < length (vals st) \<and> i < length (min_dist (bufs st))) then None
     else
       let v = uint (min_dist (bufs st) ! i);
           st1 = st\<lparr>vals := (vals st)[i := v]\<rparr>;
           send = (\<lambda>st'. st'\<lparr>valChan := valChan st' @ [(v, i, False)]\<rparr>)
       in if computeMovedSpecies spt \<or> computeTransferPerBranches spt
             \<or> computeHighTransferPerBranches spt
          then (case TopoDepth (rs (fst e)) of
                  Inl er \<Rightarrow> Some (st1, Some er)
                | Inr td \<Rightarrow>
                  if \<not> (i < length (min_dist_edge (bufs st))
                        \<and> 0 \<le> min_dist_edge (bufs st) ! i
                        \<and> nat (min_dist_edge (bufs st) ! i) < length bootEdges) then None
                  else
                    let be = bootEdges ! nat (min_dist_edge (bufs st) ! i);
                        nrm = f64_div (float64_of_int v) (f64_sub (float64_of_int td) (Num 1));
                        mindepth = int_of_float64 (f64_ceil
                          (f64_add (f64_div (Num 1) (movedSpeciesCutoff spt)) (Num 1)))
                    in (case speciesToMove (rs (fst e)) (bs (fst be)) v of
                          None \<Rightarrow> None
                        | Some (Inl er) \<Rightarrow> Some (st1, Some er)
                        | Some (Inr sm) \<Rightarrow>
                          (case (if computeMovedSpecies spt \<and> f64_le nrm (movedSpeciesCutoff spt)
                                    \<and> td \<ge> mindepth
                                 then map_option
                                        (\<lambda>ms. st1\<lparr>movedSpecies := ms,
                                             nb_branches_close := nb_branches_close st1 + 1\<rparr>)
                                        (forM sm incr_moved (movedSpecies st1))
                                 else Some st1) of
                             None \<Rightarrow> None
                           | Some st2 \<Rightarrow>
                             Some (send (if computeTransferPerBranches spt
                                            \<or> computeHighTransferPerBranches spt
                                         then st2\<lparr>taxaTransferedPerBranch :=
                                                (taxaTransferedPerBranch st2)[i := Some sm]\<rparr>
                                         else st2), None))))
          else Some (send st1, None))"

fun emit_edges ::
  "BoosterSupporter \<Rightarrow> estore \<Rightarrow> eref list \<Rightarrow> estore \<Rightarrow> (nat \<times> eref) list \<Rightarrow> cv_state
     \<Rightarrow> (cv_state \<times> error option) option" where
  "emit_edges spt rs bootEdges bs [] st = Some (st, None)"
| "emit_edges spt rs bootEdges bs (ie # ies) st =
     (case emit_edge spt rs bootEdges bs ie st of
        None \<Rightarrow> None
      | Some (st1, Some er) \<Rightarrow> Some (st1, Some er)
      | Some (st1, None) \<Rightarrow> emit_edges spt rs bootEdges bs ies st1)"

text \<open>
  After the loop: one message per species on \<open>speciesChannel\<close> (and the counter of the
  species is reset), the lists of this tree on \<open>taxPerBranchChannel\<close>, and
  \<open>NewBootTreeComputed\<close>.
\<close>

definition finish_tree :: "BoosterSupporter \<Rightarrow> cv_state \<Rightarrow> cv_state" where
  "finish_tree spt st =
     (let st1 = (if computeMovedSpecies spt
                 then st\<lparr>speciesChannel := speciesChannel st
                            @ map (\<lambda>(sp, nb). (sp, f64_div (float64_of_int nb)
                                                       (float64_of_int (nb_branches_close st))))
                                (enumerate 0 (movedSpecies st)),
                        movedSpecies := replicate (length (movedSpecies st)) 0\<rparr>
                 else st);
          st2 = (if computeTransferPerBranches spt \<or> computeHighTransferPerBranches spt
                 then st1\<lparr>taxPerBranchChannel :=
                        taxPerBranchChannel st1 @ [taxaTransferedPerBranch st1]\<rparr>
                 else st1)
      in st2\<lparr>processed := processed st2 + 1\<rparr>)"

text \<open>
  The work on one bootstrap tree whose tip index agrees with the reference tree's (the
  block guarded by \<open>err == nil\<close>), up to the test of \<open>supporter.stop\<close>. The error that
  \<open>Update_all_i_c_post_order_boot_tree\<close> returns is dropped, as in the source.
\<close>

definition process_tree ::
  "BoosterSupporter \<Rightarrow> tree \<Rightarrow> eref list \<Rightarrow> nat \<Rightarrow> tree \<Rightarrow> cv_state
     \<Rightarrow> (cv_state \<times> error option) option" where
  "process_tree spt refTree edges ntips bootTree st =
     (case Edges bootTree of None \<Rightarrow> None
      | Some bootEdges \<Rightarrow>
        (let st1 = st\<lparr>nb_branches_close := 0,
                      taxaTransferedPerBranch := replicate (length edges) None,
                      bufs := alloc_rows (length edges) ntips (length bootEdges) (bufs st)\<rparr>;
             bs = set_ids bootEdges (est bootTree)
         in case Update_all_i_c_post_order_ref_tree refTree bootEdges (bufs st1) of
              None \<Rightarrow> None
            | Some b1 \<Rightarrow>
              (case Update_all_i_c_post_order_boot_tree (est refTree) ntips edges
                      (bootTree\<lparr>est := bs\<rparr>) b1 of
                 None \<Rightarrow> None
               | Some (b2, _) \<Rightarrow>
                 (case emit_edges spt (est refTree) bootEdges bs (enumerate 0 edges)
                         (st1\<lparr>bufs := b2\<rparr>) of
                    None \<Rightarrow> None
                  | Some (st2, Some er) \<Rightarrow> Some (st2, Some er)
                  | Some (st2, None) \<Rightarrow> Some (finish_tree spt st2, None)))))"

text \<open>
  The bootstrap tree as the work on it leaves it: its edges numbered by \<open>SetId\<close>.
\<close>

definition with_ids :: "tree \<Rightarrow> tree" where
  "with_ids bt = (case Edges bt of None \<Rightarrow> bt
     | Some bootEdges \<Rightarrow> bt\<lparr>est := set_ids bootEdges (est bt)\<rparr>)"

text \<open>
  The loop \<open>for treeV := range bootTreeChannel\<close>, on the items the worker receives, in
  order. \<open>err\<close> is the variable of the source that the function returns at the end. An
  item with an error only sets \<open>err\<close>; so does a tree whose tip index does not compare
  equal to the reference tree's.

  \<open>Tree.Delete\<close> is not among the sources and is a parameter of the model. The worker
  calls it on \<open>treeV.Tree\<close> at the end of every iteration, for the items with an error
  as for the others (not after \<open>break\<close>, and not after a \<open>return\<close>). Nothing reads
  the tree afterwards, so all that matters is whether the call returns: \<open>Delete t\<close> is
  true when it does and false when it panics. Its argument \<open>None\<close> is the nil pointer:
  Go calls a method on a nil receiver, and what happens then is up to the body.
\<close>

fun ComputeValue_loop ::
  "(tree option \<Rightarrow> bool) \<Rightarrow> BoosterSupporter \<Rightarrow> tree \<Rightarrow> eref list \<Rightarrow> nat \<Rightarrow> Trees list
     \<Rightarrow> cv_state \<Rightarrow> error option \<Rightarrow> (cv_state \<times> error option) option" where
  "ComputeValue_loop Delete spt refTree edges ntips [] st err = Some (st, err)"
| "ComputeValue_loop Delete spt refTree edges ntips (treeV # rest) st err =
     (case Err treeV of
        Some e \<Rightarrow>
          if Delete (Tree treeV)
          then ComputeValue_loop Delete spt refTree edges ntips rest st (Some e)
          else None
      | None \<Rightarrow>
        (case Tree treeV of None \<Rightarrow> None
         | Some bt0 \<Rightarrow>
           (case ReinitIndexes bt0 of None \<Rightarrow> None
            | Some bt \<Rightarrow>
              (case CompareTipIndexes refTree bt of
                 Some e \<Rightarrow>
                   if Delete (Some bt)
                   then ComputeValue_loop Delete spt refTree edges ntips rest st (Some e)
                   else None
               | None \<Rightarrow>
                 (case process_tree spt refTree edges ntips bt st of
                    None \<Rightarrow> None
                  | Some (st1, Some er) \<Rightarrow> Some (st1, Some er)
                  | Some (st1, None) \<Rightarrow>
                    if stop spt then Some (st1, None)
                    else if Delete (Some (with_ids bt))
                    then ComputeValue_loop Delete spt refTree edges ntips rest st1 None
                    else None)))))"

text \<open>
  \<open>ComputeValue\<close>: the buffers are allocated for \<open>len(edges)\<close> reference edges and
  \<open>len(tips)\<close> tips, then the stream is drained. The result is the final state and the
  returned error.
\<close>

definition cv_init :: "nat \<Rightarrow> nat \<Rightarrow> cv_state" where
  "cv_init nedges ntips =
     \<lparr>bufs = \<lparr>i_matrix = replicate nedges [], c_matrix = replicate nedges [],
               hamming = replicate nedges [], min_dist = replicate nedges 0,
               min_dist_edge = replicate nedges 0\<rparr>,
      vals = replicate nedges 0, movedSpecies = replicate ntips 0, nb_branches_close = 0,
      taxaTransferedPerBranch = [], valChan = [], speciesChannel = [],
      taxPerBranchChannel = [], processed = 0\<rparr>"

definition ComputeValue ::
  "(tree option \<Rightarrow> bool) \<Rightarrow> BoosterSupporter \<Rightarrow> tree \<Rightarrow> eref list \<Rightarrow> Trees list
     \<Rightarrow> (cv_state \<times> error option) option" where
  "ComputeValue Delete spt refTree edges items =
     (case Tips refTree of None \<Rightarrow> None
      | Some tips \<Rightarrow>
          ComputeValue_loop Delete spt refTree edges (length tips) items
            (cv_init (length edges) (length tips)) None)"

subsection \<open>Tip removal\<close>

text \<open>
  \<open>removeTip\<close> rewires nodes and edges in place, and which way the new edge points
  depends on the \<open>left\<close> and \<open>right\<close> pointers of the two edges it replaces. It is
  embedded on a heap: nodes and edges are addressed by numbers, a node holds the
  addresses of its neighbours and of its edges (\<open>neigh\<close> and \<open>br\<close>, parallel slices), an
  edge the addresses of its two ends (\<open>None\<close> is nil).
\<close>

record hnode =
  hname :: string
  neigh :: "nat list"
  br :: "nat list"

record hedge = edge +
  left :: "nat option"
  right :: "nat option"

record heap =
  nodes_h :: "nat \<Rightarrow> hnode"
  edges_h :: "nat \<Rightarrow> hedge"
  root_h :: "nat option"
  next_edge :: nat      \<comment> \<open>the address the next \<open>NewEdge\<close> returns\<close>

definition upd_node :: "nat \<Rightarrow> (hnode \<Rightarrow> hnode) \<Rightarrow> heap \<Rightarrow> heap" where
  "upd_node n f h = h\<lparr>nodes_h := (nodes_h h)(n := f (nodes_h h n))\<rparr>"

definition upd_edge :: "nat \<Rightarrow> (hedge \<Rightarrow> hedge) \<Rightarrow> heap \<Rightarrow> heap" where
  "upd_edge e f h = h\<lparr>edges_h := (edges_h h)(e := f (edges_h h e))\<rparr>"

text \<open>
  Modelled from the spec: \<open>Node.NodeIndex\<close>, \<open>Node.delNeighbor\<close> and \<open>Node.addChild\<close>
  are in node.go, which is not among the sources (``a small ordered list of neighbor
  references and a parallel ordered list of incident edges (same length, same index
  correspondence)''). \<open>delNeighbor\<close> removes the neighbour and the edge at the
  neighbour's index, and fails when the node is not a neighbour; \<open>addChild\<close> appends to
  both slices.
\<close>

fun NodeIndex :: "nat list \<Rightarrow> nat \<Rightarrow> nat option" where
  "NodeIndex [] n2 = None"
| "NodeIndex (x # xs) n2 = (if x = n2 then Some 0 else map_option Suc (NodeIndex xs n2))"

definition remove_at :: "nat \<Rightarrow> 'a list \<Rightarrow> 'a list" where
  "remove_at i xs = take i xs @ drop (Suc i) xs"

definition delNeighbor :: "nat \<Rightarrow> nat \<Rightarrow> heap \<Rightarrow> error + heap" where
  "delNeighbor n n2 h = (case NodeIndex (neigh (nodes_h h n)) n2 of
       None \<Rightarrow> Inl ErrNotNeighbor
     | Some i \<Rightarrow> Inr (upd_node n (\<lambda>x. x\<lparr>neigh := remove_at i (neigh x), br := remove_at i (br x)\<rparr>) h))"

definition addChild :: "nat \<Rightarrow> nat \<Rightarrow> nat \<Rightarrow> heap \<Rightarrow> heap" where
  "addChild p n e h = upd_node p (\<lambda>x. x\<lparr>neigh := neigh x @ [n], br := br x @ [e]\<rparr>) h"

text \<open>\<open>Tree.ConnectNodes\<close>: a new edge from \<open>parent\<close> to \<open>child\<close>; the edge is returned.\<close>

definition ConnectNodes :: "sentinels \<Rightarrow> nat \<Rightarrow> nat \<Rightarrow> heap \<Rightarrow> heap \<times> nat" where
  "ConnectNodes K parent child h =
     (let e = next_edge h;
          h1 = h\<lparr>edges_h := (edges_h h)(e :=
                   \<lparr>length_e = NIL_LENGTH K, support_e = NIL_SUPPORT K,
                    pvalue_e = NIL_PVALUE K, id_e = NIL_ID K, bitset_e = None,
                    left = Some parent, right = Some child\<rparr>),
                 next_edge := Suc e\<rparr>
      in (addChild child parent e (addChild parent child e h1), e))"

text \<open>\<open>Tree.delNode\<close>: the node's slices and the ends of its edges are set to nil.\<close>

definition delNode :: "nat \<Rightarrow> heap \<Rightarrow> heap" where
  "delNode n h =
     upd_node n (\<lambda>x. x\<lparr>neigh := [], br := []\<rparr>)
       (fold (\<lambda>e. upd_edge e (\<lambda>x. x\<lparr>left := None, right := None\<rparr>)) (br (nodes_h h n)) h)"

definition SetLength :: "nat \<Rightarrow> real \<Rightarrow> heap \<Rightarrow> heap" where
  "SetLength e v h = upd_edge e (\<lambda>x. x\<lparr>length_e := v\<rparr>) h"

definition SetSupport :: "nat \<Rightarrow> real \<Rightarrow> heap \<Rightarrow> heap" where
  "SetSupport e v h = upd_edge e (\<lambda>x. x\<lparr>support_e := v\<rparr>) h"

text \<open>
  The first part of \<open>removeTip\<close>: the tip is detached from \<open>internal\<close>, the left end of
  its edge. The result is the heap and \<open>internal\<close>, or the heap and the error returned.
\<close>

definition removeTip_detach :: "nat \<Rightarrow> heap \<Rightarrow> (heap \<times> (error + nat)) option" where
  "removeTip_detach tip h =
     (if length (neigh (nodes_h h tip)) \<noteq> 1 then Some (h, Inl ErrRemoveNotTip)
      else
        let h0 = upd_node tip (\<lambda>x. x\<lparr>neigh := []\<rparr>) h in
        case br (nodes_h h0 tip) of
          [] \<Rightarrow> None
        | b0 # _ \<Rightarrow>
          (case left (edges_h h0 b0) of
             None \<Rightarrow> None
           | Some internal \<Rightarrow>
             (case delNeighbor internal tip h0 of
                Inl er \<Rightarrow> Some (h0, Inl er)
              | Inr h1 \<Rightarrow>
                Some (upd_node tip (\<lambda>x. x\<lparr>neigh := [], br := []\<rparr>)
                        (upd_edge b0 (\<lambda>x. x\<lparr>left := None, right := None\<rparr>) h1),
                      Inr internal))))"

text \<open>
  Case 1: \<open>internal\<close> is left with one neighbour. It must be the root; its neighbour
  becomes the root.
\<close>

definition removeTip_case1 :: "nat \<Rightarrow> heap \<Rightarrow> (heap \<times> error option) option" where
  "removeTip_case1 internal h =
     (if root_h h \<noteq> Some internal then Some (h, Some ErrDegreeOne)
      else
        let r = hd (neigh (nodes_h h internal));
            h1 = h\<lparr>root_h := Some r\<rparr>
        in case delNeighbor r internal h1 of
             Inl er \<Rightarrow> Some (h1, Some er)
           | Inr h2 \<Rightarrow> Some (delNode internal h2, None))"

text \<open>
  Case 2, the choice of the direction of the new edge from the directions of the two old
  ones. The result is the heap, and the new edge or the error returned.
\<close>

definition removeTip_connect ::
  "sentinels \<Rightarrow> nat \<Rightarrow> nat \<Rightarrow> nat \<Rightarrow> bool \<Rightarrow> bool \<Rightarrow> heap \<Rightarrow> heap \<times> (error + nat)" where
  "removeTip_connect K internal n1 n2 dir1 dir2 h =
     (if dir1 \<and> dir2 then (case ConnectNodes K n1 n2 h of (h1, e) \<Rightarrow> (h1, Inr e))
      else if \<not> dir1 \<and> \<not> dir2 then (case ConnectNodes K n2 n1 h of (h1, e) \<Rightarrow> (h1, Inr e))
      else if \<not> dir1 \<and> dir2 then
        (if root_h h \<noteq> Some internal then (h, Inl ErrRootNotInternal)
         else if length (neigh (nodes_h h n1)) > 1
           then (case ConnectNodes K n1 n2 h of (h1, e) \<Rightarrow> (h1\<lparr>root_h := Some n1\<rparr>, Inr e))
         else if length (neigh (nodes_h h n1)) = 1 then (h, Inl ErrN1OneNeighbor)
         else if length (neigh (nodes_h h n2)) > 1
           then (case ConnectNodes K n2 n1 h of (h1, e) \<Rightarrow> (h1\<lparr>root_h := Some n2\<rparr>, Inr e))
         else if length (neigh (nodes_h h n2)) = 1 then (h, Inl ErrN2OneNeighbor)
         else (h, Inl ErrTwoTips))
      else (h, Inl ErrOrientation))"

text \<open>
  Case 2: \<open>internal\<close> is left with two neighbours \<open>n1\<close> and \<open>n2\<close>; it is removed and
  its two edges \<open>b1\<close> and \<open>b2\<close> are replaced by one edge between \<open>n1\<close> and \<open>n2\<close>.
\<close>

definition removeTip_case2 :: "sentinels \<Rightarrow> nat \<Rightarrow> heap \<Rightarrow> (heap \<times> error option) option" where
  "removeTip_case2 K internal h =
     (case (neigh (nodes_h h internal), br (nodes_h h internal)) of
        (n1 # n2 # _, b1 # b2 # _) \<Rightarrow>
          (let length1 = length_e (edges_h h b1); length2 = length_e (edges_h h b2);
               sup1 = support_e (edges_h h b1); sup2 = support_e (edges_h h b2);
               dir1 = (left (edges_h h b1) = Some n1);
               dir2 = (right (edges_h h b2) = Some n2)
           in case delNeighbor n1 internal h of
                Inl er \<Rightarrow> Some (h, Some er)
              | Inr h1 \<Rightarrow>
                (case delNeighbor n2 internal h1 of
                   Inl er \<Rightarrow> Some (h1, Some er)
                 | Inr h2 \<Rightarrow>
                   (case removeTip_connect K internal n1 n2 dir1 dir2 h2 of
                      (h3, Inl er) \<Rightarrow> Some (h3, Some er)
                    | (h3, Inr e) \<Rightarrow>
                      (let h4 = (if length1 \<noteq> NIL_LENGTH K \<or> length2 \<noteq> NIL_LENGTH K
                                 then SetLength e (max 0 length1 + max 0 length2) h3 else h3);
                           h5 = (if (sup1 \<noteq> NIL_SUPPORT K \<or> sup2 \<noteq> NIL_SUPPORT K)
                                    \<and> length (neigh (nodes_h h4 n1)) > 1
                                    \<and> length (neigh (nodes_h h4 n2)) > 1
                                 then SetSupport e (max sup1 sup2) h4 else h4)
                       in Some (delNode internal h5, None)))))
      | _ \<Rightarrow> None)"

text \<open>\<open>Tree.removeTip\<close>: the heap after the call and the returned error.\<close>

definition removeTip :: "sentinels \<Rightarrow> nat \<Rightarrow> heap \<Rightarrow> (heap \<times> error option) option" where
  "removeTip K tip h =
     (case removeTip_detach tip h of
        None \<Rightarrow> None
      | Some (h1, Inl er) \<Rightarrow> Some (h1, Some er)
      | Some (h1, Inr internal) \<Rightarrow>
          if length (neigh (nodes_h h1 internal)) = 1 then removeTip_case1 internal h1
          else if length (neigh (nodes_h h1 internal)) = 2 then removeTip_case2 K internal h1
          else Some (h1, None))"

subsection \<open>Resolution of multifurcations\<close>










subsection \<open>Concrete trees\<close>

text \<open>
  The values of the sentinels in gotree, and three trees on four tips used to run the
  functions above: \<open>(A,B,(C,D));\<close>, \<open>(A,C,(B,D));\<close> and \<open>(A,B,(C,E));\<close>, each with
  the edge addresses 0 to 4 in the order of \<open>Edges\<close>.
\<close>

definition gotree_sentinels :: sentinels where
  "gotree_sentinels = \<lparr>NIL_LENGTH = -1, NIL_SUPPORT = -1, NIL_PVALUE = -1, NIL_ID = -1\<rparr>"

definition raw_tree :: "node \<Rightarrow> tree" where
  "raw_tree r = \<lparr>root_t = Some r, tipIndex = [], est = (\<lambda>_. NewEdge gotree_sentinels),
     next_e = length (edgesRecur r)\<rparr>"

definition tree_AB_CD :: node where
  "tree_AB_CD = Node '''' [(0, Node ''A'' []), (1, Node ''B'' []),
     (2, Node '''' [(3, Node ''C'' []), (4, Node ''D'' [])])]"

definition tree_AC_BD :: node where
  "tree_AC_BD = Node '''' [(0, Node ''A'' []), (1, Node ''C'' []),
     (2, Node '''' [(3, Node ''B'' []), (4, Node ''D'' [])])]"

definition tree_AB_CE :: node where
  "tree_AB_CE = Node '''' [(0, Node ''A'' []), (1, Node ''B'' []),
     (2, Node '''' [(3, Node ''C'' []), (4, Node ''E'' [])])]"

text \<open>
  Modelled from the spec: the engine \<open>ComputeSupport\<close> is in support.go, which is not
  among the sources. Before the workers start, the reference tree is indexed and its edges
  are numbered by their position in \<open>Edges\<close> (``reference tree edges (fixed, ids
  0..E1-1)'').
\<close>

definition prepare_ref :: "node \<Rightarrow> tree" where
  "prepare_ref r = (case ReinitIndexes (raw_tree r) of None \<Rightarrow> raw_tree r
     | Some t \<Rightarrow> t\<lparr>est := set_ids (edgesRecur r) (est t)\<rparr>)"

definition tree_item :: "node \<Rightarrow> Trees" where
  "tree_item r = \<lparr>Tree = Some (raw_tree r), Id_t = 0, Err = None\<rparr>"


text \<open>
  A \<open>Delete\<close> that dereferences its receiver: it returns on a tree and panics on the nil
  pointer.
\<close>

definition Delete_deref :: "tree option \<Rightarrow> bool" where
  "Delete_deref t = (t \<noteq> None)"



definition plain_supporter :: BoosterSupporter where
  "plain_supporter = NewBoosterSupporter True False False False (Num 1) False"

text \<open>
  A heap for \<open>removeTip\<close>: the root 0 has the neighbours 1, 4, 5; node 1 has the
  neighbours 0, 2, 3, of which 2 is a tip; node 3 has the neighbours 1, 6, 7. The edge 0
  (from 0 to 1) has the length 2 and the support 0.9, the edge 2 (from 1 to 3) has
  neither.
\<close>

definition mk_edge :: "real \<Rightarrow> real \<Rightarrow> nat \<Rightarrow> nat \<Rightarrow> hedge" where
  "mk_edge l s p c = \<lparr>length_e = l, support_e = s, pvalue_e = -1, id_e = -1, bitset_e = None,
     left = Some p, right = Some c\<rparr>"

definition mk_node :: "string \<Rightarrow> nat list \<Rightarrow> nat list \<Rightarrow> hnode" where
  "mk_node nm ns bs = \<lparr>hname = nm, neigh = ns, br = bs\<rparr>"

definition heap_ex :: heap where
  "heap_ex = \<lparr>nodes_h = (\<lambda>_. mk_node '''' [] [])
       (0 := mk_node '''' [1, 4, 5] [0, 3, 4],
        1 := mk_node '''' [0, 2, 3] [0, 1, 2],
        2 := mk_node ''t'' [1] [1],
        3 := mk_node '''' [1, 6, 7] [2, 5, 6],
        4 := mk_node ''a'' [0] [3],
        5 := mk_node ''b'' [0] [4],
        6 := mk_node ''c'' [3] [5],
        7 := mk_node ''d'' [3] [6]),
     edges_h = (\<lambda>_. mk_edge (-1) (-1) 0 0)
       (0 := mk_edge 2 (9/10) 0 1,
        1 := mk_edge 1 (-1) 1 2,
        2 := mk_edge (-1) (-1) 1 3,
        3 := mk_edge 1 (-1) 0 4,
        4 := mk_edge 1 (-1) 0 5,
        5 := mk_edge 1 (-1) 3 6,
        6 := mk_edge 1 (-1) 3 7),
     root_h = Some 0, next_edge = 7\<rparr>"

subsection \<open>Invariants of the two passes\<close>

text \<open>
  Predicates on the scratch buffers used to state what the two passes do. Two matrices
  have the same dimensions:
\<close>

definition same_dims :: "matrix \<Rightarrow> matrix \<Rightarrow> bool" where
  "same_dims m m' = (map length m' = map length m)"

text \<open>The state is wide enough for \<open>n\<close> reference edges and the columns below \<open>nb\<close>.\<close>

definition wide :: "matrix \<Rightarrow> nat \<Rightarrow> nat \<Rightarrow> bool" where
  "wide m n nb = (n \<le> length m \<and> (\<forall>i<n. nb \<le> length (m ! i)))"

text \<open>What a loop that writes the column \<open>j\<close> of \<open>I\<close> and \<open>C\<close> leaves alone.\<close>

definition frame_IC :: "int \<Rightarrow> dp \<Rightarrow> dp \<Rightarrow> bool" where
  "frame_IC j st st' =
     (hamming st' = hamming st \<and> min_dist st' = min_dist st \<and> min_dist_edge st' = min_dist_edge st
      \<and> same_dims (i_matrix st) (i_matrix st') \<and> same_dims (c_matrix st) (c_matrix st')
      \<and> (\<forall>i' j'. 0 \<le> i' \<longrightarrow> 0 \<le> j' \<longrightarrow> j' \<noteq> j \<longrightarrow>
            rd (i_matrix st') i' j' = rd (i_matrix st) i' j'
          \<and> rd (c_matrix st') i' j' = rd (c_matrix st) i' j'))"

text \<open>The value the second pass stores in \<open>hamming[i][j]\<close>.\<close>

definition hval :: "estore \<Rightarrow> nat \<Rightarrow> eref list \<Rightarrow> dp \<Rightarrow> int \<Rightarrow> nat \<Rightarrow> 16 word" where
  "hval rs ntips edges st j i =
     hamming_value ntips (fst (NumTipsRight (rs (fst (edges ! i)))))
       (rd (c_matrix st) (int i) j) (rd (i_matrix st) (int i) j)"

definition dp_wide :: "dp \<Rightarrow> nat \<Rightarrow> nat \<Rightarrow> bool" where
  "dp_wide st n nb = (wide (i_matrix st) n nb \<and> wide (c_matrix st) n nb \<and> wide (hamming st) n nb
     \<and> n \<le> length (min_dist st) \<and> n \<le> length (min_dist_edge st))"

definition dp_same_dims :: "dp \<Rightarrow> dp \<Rightarrow> bool" where
  "dp_same_dims st st' = (same_dims (i_matrix st) (i_matrix st') \<and> same_dims (c_matrix st) (c_matrix st')
     \<and> same_dims (hamming st) (hamming st') \<and> length (min_dist st') = length (min_dist st)
     \<and> length (min_dist_edge st') = length (min_dist_edge st))"

text \<open>
  What the second pass has done once the bootstrap edges with the ids \<open>J\<close> have been
  visited: \<open>X\<close> are further columns of \<open>I\<close> and \<open>C\<close> that may have been written,
  \<open>T\<close> the visited columns of \<open>I\<close> and \<open>C\<close> that have not been written.
\<close>

definition boot_post ::
  "estore \<Rightarrow> nat \<Rightarrow> eref list \<Rightarrow> int set \<Rightarrow> int set \<Rightarrow> int set \<Rightarrow> dp \<Rightarrow> dp \<Rightarrow> bool" where
  "boot_post rs ntips edges J X T st st' =
     (dp_same_dims st st' \<and> T \<subseteq> J \<and> (\<forall>j\<in>J. 0 \<le> j)
      \<and> (\<forall>i' j'. 0 \<le> i' \<longrightarrow> 0 \<le> j' \<longrightarrow> j' \<notin> J \<longrightarrow>
             rd (hamming st') i' j' = rd (hamming st) i' j')
      \<and> (\<forall>i' j'. 0 \<le> i' \<longrightarrow> 0 \<le> j' \<longrightarrow> j' \<notin> (J - T) \<union> X \<longrightarrow>
             rd (i_matrix st') i' j' = rd (i_matrix st) i' j'
           \<and> rd (c_matrix st') i' j' = rd (c_matrix st) i' j')
      \<and> (\<forall>i<length edges. \<forall>j\<in>J. rd (hamming st') (int i) j = hval rs ntips edges st' j i)
      \<and> (\<forall>i<length edges. min_dist st' ! i \<le> min_dist st ! i
             \<and> (\<forall>j\<in>J. min_dist st' ! i \<le> rd (hamming st') (int i) j)
             \<and> (min_dist st' ! i = min_dist st ! i
                 \<or> (\<exists>j\<in>J. min_dist st' ! i = rd (hamming st') (int i) j)))
      \<and> (\<forall>i<length edges.
             if min_dist st' ! i < min_dist st ! i
             then min_dist_edge st' ! i \<in> J
                  \<and> rd (hamming st') (int i) (min_dist_edge st' ! i) = min_dist st' ! i
             else min_dist_edge st' ! i = min_dist_edge st ! i))"

text \<open>The ids of a list of edges, read in the store \<open>bs\<close>.\<close>

definition ids :: "estore \<Rightarrow> eref list \<Rightarrow> int list" where
  "ids bs es = map (\<lambda>e. id_e (bs (fst e))) es"

text \<open>What a loop that writes the row \<open>p\<close> of \<open>I\<close> and \<open>C\<close> leaves alone.\<close>

definition frame_row :: "int \<Rightarrow> dp \<Rightarrow> dp \<Rightarrow> bool" where
  "frame_row p st st' =
     (hamming st' = hamming st \<and> min_dist st' = min_dist st \<and> min_dist_edge st' = min_dist_edge st
      \<and> same_dims (i_matrix st) (i_matrix st') \<and> same_dims (c_matrix st) (c_matrix st')
      \<and> (\<forall>i' j'. 0 \<le> i' \<longrightarrow> 0 \<le> j' \<longrightarrow> i' \<noteq> p \<longrightarrow>
            rd (i_matrix st') i' j' = rd (i_matrix st) i' j'
          \<and> rd (c_matrix st') i' j' = rd (c_matrix st) i' j'))"

definition ref_wide :: "dp \<Rightarrow> nat \<Rightarrow> nat \<Rightarrow> bool" where
  "ref_wide st n nb = (wide (i_matrix st) n nb \<and> wide (c_matrix st) n nb)"

text \<open>
  What the first pass has done once the reference edges \<open>Es\<close> have been visited; \<open>X\<close> are
  further rows that may have been written.
\<close>

definition ref_post :: "estore \<Rightarrow> eref list \<Rightarrow> eref list \<Rightarrow> int set \<Rightarrow> dp \<Rightarrow> dp \<Rightarrow> bool" where
  "ref_post rs B Es X st st' =
     (hamming st' = hamming st \<and> min_dist st' = min_dist st \<and> min_dist_edge st' = min_dist_edge st
      \<and> same_dims (i_matrix st) (i_matrix st') \<and> same_dims (c_matrix st) (c_matrix st')
      \<and> (\<forall>j\<in>set (ids rs Es). 0 \<le> j)
      \<and> (\<forall>i' j'. 0 \<le> i' \<longrightarrow> 0 \<le> j' \<longrightarrow> i' \<notin> set (ids rs Es) \<union> X \<longrightarrow>
            rd (i_matrix st') i' j' = rd (i_matrix st) i' j'
          \<and> rd (c_matrix st') i' j' = rd (c_matrix st) i' j')
      \<and> (\<forall>e\<in>set Es. right_tip e \<longrightarrow> (\<forall>k<length B. right_tip (B ! k) \<longrightarrow>
            rd (i_matrix st') (id_e (rs (fst e))) (int k)
              = (if name (snd e) = name (snd (B ! k)) then 1 else 0)
          \<and> rd (c_matrix st') (id_e (rs (fst e))) (int k)
              = (if name (snd e) = name (snd (B ! k)) then 0 else 1))))"

text \<open>The Hamming distance of the spec, in exact integer arithmetic.\<close>

definition exact_hamming :: "int \<Rightarrow> 16 word \<Rightarrow> 16 word \<Rightarrow> int" where
  "exact_hamming tipsRight c i = tipsRight + uint c - uint i"

subsection \<open>Concrete buffers\<close>

text \<open>
  A reference edge with 3000 tips on its right among 70000, and a bootstrap tree with one
  edge, to run the second pass beyond the range of \<open>uint16\<close>.
\<close>

definition edge_3000 :: edge where
  "edge_3000 = (NewEdge gotree_sentinels)\<lparr>id_e := 0,
     bitset_e := Some \<lparr>blen = 70000, bits = {0..<3000}\<rparr>\<rparr>"

definition boot_one_tip :: tree where
  "boot_one_tip = \<lparr>root_t = Some (Node '''' [(0, Node ''X'' [])]), tipIndex = [(''X'', 0)],
     est = (\<lambda>_. (NewEdge gotree_sentinels)\<lparr>id_e := 0\<rparr>), next_e = 1\<rparr>"

definition dp_one :: dp where
  "dp_one = \<lparr>i_matrix = [[0]], c_matrix = [[1]], hamming = [[0]],
     min_dist = [word_of_nat 70000], min_dist_edge = [-1]\<rparr>"

text \<open>
  The buffers of a worker for 5 reference edges and 5 bootstrap edges, as \<open>ComputeValue\<close>
  allocates and resets them, and after the first pass on \<open>(A,B,(C,D));\<close> against the
  edges of \<open>(A,C,(B,D));\<close>.
\<close>

definition dp_zero :: "nat \<Rightarrow> nat \<Rightarrow> 16 word \<Rightarrow> dp" where
  "dp_zero n nb d = \<lparr>i_matrix = replicate n (replicate nb 0), c_matrix = replicate n (replicate nb 0),
     hamming = replicate n (replicate nb 0), min_dist = replicate n d,
     min_dist_edge = replicate n (-1)\<rparr>"

definition dp_after_ref :: dp where
  "dp_after_ref = (case Update_all_i_c_post_order_ref_tree (prepare_ref tree_AB_CD)
       (edgesRecur tree_AC_BD) (dp_zero 5 5 4) of None \<Rightarrow> dp_zero 5 5 4 | Some s \<Rightarrow> s)"

subsection \<open>A reference tree with empty bitsets\<close>

text \<open>
  The reference tree \<open>(A,B,(C,D));\<close>, indexed and numbered, after a call of
  \<open>ClearBitSets\<close> that no call of \<open>UpdateBitSet\<close> has followed: every edge has a
  bitset and no bit is set.
\<close>

definition unfilled_ref :: tree where
  "unfilled_ref = (case ClearBitSets (prepare_ref tree_AB_CD) of
     None \<Rightarrow> prepare_ref tree_AB_CD | Some (t, _) \<Rightarrow> t)"

subsection \<open>The tips below an edge\<close>

text \<open>
  The ordinals of the tips below a node, in the order of the traversal; a tip that is not
  in the index has none.
\<close>

fun tip_ords :: "(string \<times> nat) list \<Rightarrow> node \<Rightarrow> nat list"
  and tip_ords_kids :: "(string \<times> nat) list \<Rightarrow> (nat \<times> node) list \<Rightarrow> nat list" where
  "tip_ords ix (Node nm ks) =
     (if ks = [] then (case map_of ix nm of None \<Rightarrow> [] | Some i \<Rightarrow> [i]) else tip_ords_kids ix ks)"
| "tip_ords_kids ix [] = []"
| "tip_ords_kids ix ((a, c) # ks) = tip_ords ix c @ tip_ords_kids ix ks"

text \<open>An update of the bitset of an edge, and stores whose edges at \<open>A\<close> have a bitset.\<close>

definition upd_bits :: "(bitset \<Rightarrow> bitset) \<Rightarrow> edge \<Rightarrow> edge" where
  "upd_bits f e = e\<lparr>bitset_e := map_option f (bitset_e e)\<rparr>"

definition allocated :: "estore \<Rightarrow> nat set \<Rightarrow> bool" where
  "allocated s A = (\<forall>x\<in>A. bitset_e (s x) \<noteq> None)"

text \<open>
  What \<open>fillRightBitSet\<close> does to the store: the edges \<open>Es\<close> below the current edge
  are cleared and get the tips below them; the edges of the stack \<open>R\<close> get the tips
  \<open>ords\<close>, those in \<open>Cl\<close> after being cleared.
\<close>

definition fill_post ::
  "(string \<times> nat) list \<Rightarrow> nat set \<Rightarrow> nat set \<Rightarrow> eref list \<Rightarrow> nat list \<Rightarrow> estore \<Rightarrow> estore \<Rightarrow> bool" where
  "fill_post ix R Cl Es ords s s' =
     ((\<forall>x. x \<notin> R \<union> fst ` set Es \<longrightarrow> s' x = s x)
      \<and> (\<forall>x\<in>R. s' x = upd_bits (\<lambda>b. fold bitset_Set ords (if x \<in> Cl then ClearAll b else b)) (s x))
      \<and> (\<forall>e\<in>set Es. s' (fst e)
            = upd_bits (\<lambda>b. fold bitset_Set (tip_ords ix (snd e)) (ClearAll b)) (s (fst e))))"

text \<open>What \<open>UpdateBitSet\<close> does to the store, \<open>Es\<close> being the edges of the tree.\<close>

definition filled :: "(string \<times> nat) list \<Rightarrow> eref list \<Rightarrow> estore \<Rightarrow> estore \<Rightarrow> bool" where
  "filled ix Es s s' =
     ((\<forall>x. x \<notin> fst ` set Es \<longrightarrow> s' x = s x)
      \<and> (\<forall>e\<in>set Es. s' (fst e)
            = upd_bits (\<lambda>b. fold bitset_Set (tip_ords ix (snd e)) (ClearAll b)) (s (fst e))))"

text \<open>The set bits of the bitset of the edge at \<open>a\<close>.\<close>

definition edge_bits :: "tree \<Rightarrow> nat \<Rightarrow> nat set" where
  "edge_bits t a = (case bitset_e (est t a) of None \<Rightarrow> {} | Some b \<Rightarrow> bits b)"

text \<open>
  The tree on the node \<open>r\<close> after \<open>UpdateTipIndex\<close> and \<open>ClearBitSets\<close>, and the tree
  \<open>(A,A,B);\<close>, where two tips have the same name.
\<close>

definition indexed_tree :: "node \<Rightarrow> tree" where
  "indexed_tree r = (case UpdateTipIndex (raw_tree r) of None \<Rightarrow> raw_tree r
     | Some t1 \<Rightarrow> (case ClearBitSets t1 of None \<Rightarrow> t1 | Some (t2, _) \<Rightarrow> t2))"

definition tree_AAB :: node where
  "tree_AAB = Node '''' [(0, Node ''A'' []), (1, Node ''A'' []), (2, Node ''B'' [])]"

subsection \<open>What \<open>Resolve\<close> keeps\<close>









section \<open>Verified properties\<close>

subsection \<open>Auxiliary facts\<close>

lemma check_min_dist_error:
  "check_min_dist rs es md = Some (Some er) \<Longrightarrow> \<exists>d. er = ErrTerminalEdge d \<and> d \<noteq> 0"
  by (induction es) (auto simp: Let_def unat_gt_0 split: if_splits)





lemma delNode_attrs [simp]:
  "length_e (edges_h (delNode n h) e) = length_e (edges_h h e)"
  "support_e (edges_h (delNode n h) e) = support_e (edges_h h e)"
proof -
  have "\<And>h. length_e (edges_h (fold (\<lambda>e. upd_edge e (\<lambda>x. x\<lparr>left := None, right := None\<rparr>)) es h) e) = length_e (edges_h h e)
     \<and> support_e (edges_h (fold (\<lambda>e. upd_edge e (\<lambda>x. x\<lparr>left := None, right := None\<rparr>)) es h) e) = support_e (edges_h h e)" for es
    by (induction es) (auto simp: upd_edge_def)
  then show "length_e (edges_h (delNode n h) e) = length_e (edges_h h e)"
    "support_e (edges_h (delNode n h) e) = support_e (edges_h h e)"
    by (simp_all add: delNode_def upd_node_def)
qed

lemma delNeighbor_frame:
  "delNeighbor n n2 h = Inr h' \<Longrightarrow> edges_h h' = edges_h h \<and> next_edge h' = next_edge h \<and> root_h h' = root_h h
     \<and> (\<forall>m. m \<noteq> n \<longrightarrow> nodes_h h' m = nodes_h h m)"
  by (auto simp: delNeighbor_def upd_node_def split: option.splits)

lemma removeTip_connect_new_edge:
  "removeTip_connect K internal n1 n2 dir1 dir2 h = (h3, Inr e) \<Longrightarrow>
     e = next_edge h \<and> length_e (edges_h h3 e) = NIL_LENGTH K \<and> support_e (edges_h h3 e) = NIL_SUPPORT K
     \<and> {left (edges_h h3 e), right (edges_h h3 e)} = {Some n1, Some n2}"
  by (auto simp: removeTip_connect_def ConnectNodes_def Let_def addChild_def upd_node_def split: if_splits)


lemma removeTip_connect_frame:
  "removeTip_connect K internal n1 n2 dir1 dir2 h = (h3, Inr e) \<Longrightarrow>
     (\<forall>n. n \<noteq> n1 \<and> n \<noteq> n2 \<longrightarrow> nodes_h h3 n = nodes_h h n)
     \<and> (\<forall>a. a \<noteq> e \<longrightarrow> edges_h h3 a = edges_h h a)"
  by (auto simp: removeTip_connect_def ConnectNodes_def Let_def addChild_def upd_node_def split: if_splits)

lemma delNode_nodes:
  "n \<noteq> m \<Longrightarrow> nodes_h (delNode m h) n = nodes_h h n"
proof -
  have "\<And>h. nodes_h (fold (\<lambda>e. upd_edge e (\<lambda>x. x\<lparr>left := None, right := None\<rparr>)) es h) = nodes_h h" for es
    by (induction es) (auto simp: upd_edge_def)
  then show "n \<noteq> m \<Longrightarrow> nodes_h (delNode m h) n = nodes_h h n"
    by (simp add: delNode_def upd_node_def)
qed

lemma delNode_edges:
  "e \<notin> set (br (nodes_h h m)) \<Longrightarrow> edges_h (delNode m h) e = edges_h h e"
proof -
  have "\<And>h. e \<notin> set es \<Longrightarrow> edges_h (fold (\<lambda>e. upd_edge e (\<lambda>x. x\<lparr>left := None, right := None\<rparr>)) es h) e = edges_h h e" for es
    by (induction es) (auto simp: upd_edge_def)
  then show "e \<notin> set (br (nodes_h h m)) \<Longrightarrow> edges_h (delNode m h) e = edges_h h e"
    by (simp add: delNode_def upd_node_def)
qed

lemma removeTip_case2_merge:
  assumes run: "removeTip_case2 K internal h = Some (h', None)"
    and ns: "neigh (nodes_h h internal) = [n1, n2]" and bs: "br (nodes_h h internal) = [b1, b2]"
    and ne: "n1 \<noteq> internal" "n2 \<noteq> internal"
    and old: "b1 < next_edge h" "b2 < next_edge h"
  shows "length_e (edges_h h' (next_edge h)) =
           (if length_e (edges_h h b1) \<noteq> NIL_LENGTH K \<or> length_e (edges_h h b2) \<noteq> NIL_LENGTH K
            then max 0 (length_e (edges_h h b1)) + max 0 (length_e (edges_h h b2))
            else NIL_LENGTH K)
       \<and> support_e (edges_h h' (next_edge h)) =
           (if (support_e (edges_h h b1) \<noteq> NIL_SUPPORT K \<or> support_e (edges_h h b2) \<noteq> NIL_SUPPORT K)
               \<and> 1 < length (neigh (nodes_h h' n1)) \<and> 1 < length (neigh (nodes_h h' n2))
            then max (support_e (edges_h h b1)) (support_e (edges_h h b2))
            else NIL_SUPPORT K)
       \<and> {left (edges_h h' (next_edge h)), right (edges_h h' (next_edge h))} = {Some n1, Some n2}"
proof -
  let ?dir1 = "left (edges_h h b1) = Some n1" and ?dir2 = "right (edges_h h b2) = Some n2"
  let ?l1 = "length_e (edges_h h b1)" and ?l2 = "length_e (edges_h h b2)"
  let ?s1 = "support_e (edges_h h b1)" and ?s2 = "support_e (edges_h h b2)"
  from run ns bs obtain h1 where d1: "delNeighbor n1 internal h = Inr h1"
    by (auto simp: removeTip_case2_def Let_def split: sum.splits)
  from run ns bs d1 obtain h2 where d2: "delNeighbor n2 internal h1 = Inr h2"
    by (auto simp: removeTip_case2_def Let_def split: sum.splits)
  from run ns bs d1 d2 obtain h3 e where c: "removeTip_connect K internal n1 n2 ?dir1 ?dir2 h2 = (h3, Inr e)"
    by (auto simp: removeTip_case2_def Let_def split: sum.splits prod.splits)
  define h4 where "h4 = (if ?l1 \<noteq> NIL_LENGTH K \<or> ?l2 \<noteq> NIL_LENGTH K
                                 then SetLength e (max 0 ?l1 + max 0 ?l2) h3 else h3)"
  define h5 where "h5 = (if (?s1 \<noteq> NIL_SUPPORT K \<or> ?s2 \<noteq> NIL_SUPPORT K)
                                    \<and> length (neigh (nodes_h h4 n1)) > 1
                                    \<and> length (neigh (nodes_h h4 n2)) > 1
                                 then SetSupport e (max ?s1 ?s2) h4 else h4)"
  have "removeTip_case2 K internal h = Some (delNode internal h5, None)"
    unfolding removeTip_case2_def h4_def h5_def
    by (simp add: Let_def ns bs d1 d2 c split del: if_split cong: if_cong)
  with run have h': "h' = delNode internal h5" by simp
  from delNeighbor_frame [OF d1] delNeighbor_frame [OF d2] ne
  have f2: "next_edge h2 = next_edge h" "edges_h h2 = edges_h h" "nodes_h h2 internal = nodes_h h internal"
    by auto
  from removeTip_connect_new_edge [OF c] f2
  have e: "e = next_edge h" "length_e (edges_h h3 e) = NIL_LENGTH K"
    "support_e (edges_h h3 e) = NIL_SUPPORT K"
    "{left (edges_h h3 e), right (edges_h h3 e)} = {Some n1, Some n2}"
    by auto
  from removeTip_connect_frame [OF c] ne f2 have i3: "nodes_h h3 internal = nodes_h h internal"
    by auto
  have n45: "nodes_h h5 = nodes_h h3" "nodes_h h4 = nodes_h h3"
    by (auto simp: h5_def h4_def SetSupport_def SetLength_def upd_edge_def)
  have nh': "nodes_h h' n1 = nodes_h h4 n1" "nodes_h h' n2 = nodes_h h4 n2"
    using ne by (simp_all add: h' delNode_nodes n45)
  have enotin: "e \<notin> set (br (nodes_h h5 internal))"
    using old e(1) by (auto simp: n45 i3 bs)
  have lr: "left (edges_h h5 e) = left (edges_h h3 e)" "right (edges_h h5 e) = right (edges_h h3 e)"
    by (auto simp: h5_def h4_def SetSupport_def SetLength_def upd_edge_def)
  have "length_e (edges_h h' e) = length_e (edges_h h4 e)"
    by (simp add: h' h5_def SetSupport_def upd_edge_def)
  moreover have "length_e (edges_h h4 e) = (if ?l1 \<noteq> NIL_LENGTH K \<or> ?l2 \<noteq> NIL_LENGTH K
            then max 0 ?l1 + max 0 ?l2 else NIL_LENGTH K)"
    using e(2) by (simp add: h4_def SetLength_def upd_edge_def)
  moreover have "support_e (edges_h h4 e) = NIL_SUPPORT K"
    using e(3) by (simp add: h4_def SetLength_def upd_edge_def)
  then have "support_e (edges_h h' e) = (if (?s1 \<noteq> NIL_SUPPORT K \<or> ?s2 \<noteq> NIL_SUPPORT K)
               \<and> 1 < length (neigh (nodes_h h' n1)) \<and> 1 < length (neigh (nodes_h h' n2))
            then max ?s1 ?s2 else NIL_SUPPORT K)"
    unfolding nh' by (simp add: h' h5_def SetSupport_def upd_edge_def)
  moreover have "{left (edges_h h' e), right (edges_h h' e)} = {Some n1, Some n2}"
    using e(4) enotin by (simp add: h' delNode_edges lr)
  ultimately show ?thesis unfolding e(1) by simp
qed

lemma removeTip_detach_frame:
  "removeTip_detach tip h = Some (h1, Inr internal) \<Longrightarrow>
     next_edge h1 = next_edge h
     \<and> (\<forall>a. length_e (edges_h h1 a) = length_e (edges_h h a)
            \<and> support_e (edges_h h1 a) = support_e (edges_h h a))"
  by (auto simp: removeTip_detach_def Let_def upd_node_def upd_edge_def delNeighbor_def
      split: if_splits list.splits option.splits sum.splits)

lemma forM_append:
  "forM (xs @ ys) f s = (case forM xs f s of None \<Rightarrow> None | Some s' \<Rightarrow> forM ys f s')"
  by (induction xs arbitrary: s) (auto split: option.splits)

lemma forM_snoc:
  "forM (xs @ [x]) f s = (case forM xs f s of None \<Rightarrow> None | Some s' \<Rightarrow> f x s')"
  by (simp add: forM_append split: option.splits)

lemma same_dims_refl [simp]: "same_dims m m"
  by (simp add: same_dims_def)

lemma same_dims_trans: "same_dims m m' \<Longrightarrow> same_dims m' m'' \<Longrightarrow> same_dims m m''"
  by (simp add: same_dims_def)

lemma same_dims_wr [simp]: "same_dims m (wr m i j v)"
proof -
  have "length (m[nat i := (m ! nat i)[nat j := v]] ! k) = length (m ! k)" if "k < length m" for k
    using that by (cases "k = nat i") simp_all
  then show ?thesis
    by (auto simp: same_dims_def wr_def intro!: nth_equalityI)
qed

lemma cell_ok_same_dims: "same_dims m m' \<Longrightarrow> cell_ok m' i j = cell_ok m i j"
proof -
  assume a: "same_dims m m'"
  then have l: "length m' = length m"
    unfolding same_dims_def by (metis length_map)
  have "\<And>k. k < length m \<Longrightarrow> length (m' ! k) = length (m ! k)"
    using a l unfolding same_dims_def by (metis nth_map)
  then show ?thesis using l by (auto simp: cell_ok_def)
qed

lemma rd_wr:
  "cell_ok m i j \<Longrightarrow> 0 \<le> i' \<Longrightarrow> 0 \<le> j' \<Longrightarrow>
     rd (wr m i j v) i' j' = (if i' = i \<and> j' = j then v else rd m i' j')"
  by (auto simp: rd_def wr_def cell_ok_def nth_list_update)

lemma wide_cell_ok: "wide m n nb \<Longrightarrow> i < n \<Longrightarrow> 0 \<le> j \<Longrightarrow> j < int nb \<Longrightarrow> cell_ok m (int i) j"
  by (auto simp: wide_def cell_ok_def)

lemma wide_same_dims: "same_dims m m' \<Longrightarrow> wide m n nb \<Longrightarrow> wide m' n nb"
proof -
  assume a: "same_dims m m'" and w: "wide m n nb"
  then have l: "length m' = length m"
    unfolding same_dims_def by (metis length_map)
  have "\<And>k. k < length m \<Longrightarrow> length (m' ! k) = length (m ! k)"
    using a l unfolding same_dims_def by (metis nth_map)
  then show ?thesis using l w by (auto simp: wide_def)
qed

lemma boot_zero_loop:
  assumes "\<forall>i<n. cell_ok (i_matrix st) (int i) j \<and> cell_ok (c_matrix st) (int i) j"
  shows "\<exists>st'. forM [0..<n] (boot_zero_cell j) st = Some st'
     \<and> hamming st' = hamming st \<and> min_dist st' = min_dist st \<and> min_dist_edge st' = min_dist_edge st
     \<and> same_dims (i_matrix st) (i_matrix st') \<and> same_dims (c_matrix st) (c_matrix st')
     \<and> (\<forall>i' j'. 0 \<le> i' \<longrightarrow> 0 \<le> j' \<longrightarrow>
           rd (i_matrix st') i' j' = (if i' < int n \<and> j' = j then 0 else rd (i_matrix st) i' j')
         \<and> rd (c_matrix st') i' j' = (if i' < int n \<and> j' = j then 0 else rd (c_matrix st) i' j'))"
  using assms
proof (induction n)
  case 0
  show ?case by simp
next
  case (Suc n)
  then obtain st1 where 1: "forM [0..<n] (boot_zero_cell j) st = Some st1"
     "hamming st1 = hamming st" "min_dist st1 = min_dist st" "min_dist_edge st1 = min_dist_edge st"
     "same_dims (i_matrix st) (i_matrix st1)" "same_dims (c_matrix st) (c_matrix st1)"
     and rd1: "\<And>i' j'. 0 \<le> i' \<Longrightarrow> 0 \<le> j' \<Longrightarrow>
           rd (i_matrix st1) i' j' = (if i' < int n \<and> j' = j then 0 else rd (i_matrix st) i' j')
         \<and> rd (c_matrix st1) i' j' = (if i' < int n \<and> j' = j then 0 else rd (c_matrix st) i' j')"
    by (metis less_SucI)
  from Suc.prems 1(5,6) have ok: "cell_ok (i_matrix st1) (int n) j" "cell_ok (c_matrix st1) (int n) j"
    by (simp_all add: cell_ok_same_dims)
  then have j0: "0 \<le> j" by (simp add: cell_ok_def)
  define st' where "st' = st1\<lparr>i_matrix := wr (i_matrix st1) (int n) j 0,
                                 c_matrix := wr (c_matrix st1) (int n) j 0\<rparr>"
  have "boot_zero_cell j n st1 = Some st'"
    using ok by (simp add: boot_zero_cell_def st'_def)
  then have run: "forM [0..<Suc n] (boot_zero_cell j) st = Some st'"
    by (simp add: forM_snoc 1(1))
  have "same_dims (i_matrix st) (i_matrix st')" "same_dims (c_matrix st) (c_matrix st')"
    using 1(5,6) by (auto simp: st'_def intro: same_dims_trans [OF _ same_dims_wr])
  moreover have "hamming st' = hamming st" "min_dist st' = min_dist st"
    "min_dist_edge st' = min_dist_edge st"
    using 1 by (simp_all add: st'_def)
  moreover have "rd (i_matrix st') i' j' = (if i' < int (Suc n) \<and> j' = j then 0 else rd (i_matrix st) i' j')
         \<and> rd (c_matrix st') i' j' = (if i' < int (Suc n) \<and> j' = j then 0 else rd (c_matrix st) i' j')"
    if "0 \<le> i'" "0 \<le> j'" for i' j'
    using that ok rd1 [OF that] by (auto simp: st'_def rd_wr)
  ultimately show ?case using run by blast
qed

lemma frame_IC_refl [simp]: "frame_IC j st st"
  by (simp add: frame_IC_def)

lemma frame_IC_trans: "frame_IC j st st1 \<Longrightarrow> frame_IC j st1 st2 \<Longrightarrow> frame_IC j st st2"
  by (auto simp: frame_IC_def intro: same_dims_trans)

lemma boot_zero_cell_frame:
  assumes "cell_ok (i_matrix st) (int i) j" "cell_ok (c_matrix st) (int i) j"
  shows "\<exists>st'. boot_zero_cell j i st = Some st' \<and> frame_IC j st st'"
  using assms by (simp add: boot_zero_cell_def frame_IC_def rd_wr)

lemma boot_add_cell_frame:
  assumes "cell_ok (i_matrix st) (int i) j" "cell_ok (c_matrix st) (int i) j"
    "cell_ok (i_matrix st) (int i) j2" "cell_ok (c_matrix st) (int i) j2"
  shows "\<exists>st'. boot_add_cell j j2 i st = Some st' \<and> frame_IC j st st'"
  using assms by (simp add: boot_add_cell_def add_cell_def frame_IC_def rd_wr)

lemma forM_frame_IC:
  assumes step: "\<And>i st. i \<in> set xs \<Longrightarrow> ok st \<Longrightarrow> \<exists>st'. f i st = Some st' \<and> frame_IC j st st'"
    and pres: "\<And>st st'. ok st \<Longrightarrow> frame_IC j st st' \<Longrightarrow> ok st'"
    and "ok st"
  shows "\<exists>st'. forM xs f st = Some st' \<and> frame_IC j st st'"
  using assms
proof (induction xs arbitrary: st)
  case Nil
  show ?case by simp
next
  case (Cons x xs)
  from Cons.prems obtain st1 where 1: "f x st = Some st1" "frame_IC j st st1"
    by (meson list.set_intros(1))
  then have "ok st1" using Cons.prems by blast
  with Cons.IH [of st1] Cons.prems obtain st2 where "forM xs f st1 = Some st2" "frame_IC j st1 st2"
    by (meson list.set_intros(2))
  with 1 show ?case by (auto intro: frame_IC_trans)
qed

lemma frame_IC_cell_ok:
  "frame_IC j st st' \<Longrightarrow> cell_ok (i_matrix st') a b = cell_ok (i_matrix st) a b
     \<and> cell_ok (c_matrix st') a b = cell_ok (c_matrix st) a b"
  by (simp add: frame_IC_def cell_ok_same_dims)

lemma boot_zero_loop_frame:
  assumes "\<forall>i<n. cell_ok (i_matrix st) (int i) j \<and> cell_ok (c_matrix st) (int i) j"
  shows "\<exists>st'. forM [0..<n] (boot_zero_cell j) st = Some st' \<and> frame_IC j st st'"
proof (rule forM_frame_IC [where ok = "\<lambda>st. \<forall>i<n. cell_ok (i_matrix st) (int i) j \<and> cell_ok (c_matrix st) (int i) j"])
  show "\<forall>i<n. cell_ok (i_matrix st) (int i) j \<and> cell_ok (c_matrix st) (int i) j" by fact
qed (auto simp: frame_IC_cell_ok intro: boot_zero_cell_frame)

lemma boot_add_loop_frame:
  assumes "\<forall>i<n. cell_ok (i_matrix st) (int i) j \<and> cell_ok (c_matrix st) (int i) j
     \<and> cell_ok (i_matrix st) (int i) j2 \<and> cell_ok (c_matrix st) (int i) j2"
  shows "\<exists>st'. forM [0..<n] (boot_add_cell j j2) st = Some st' \<and> frame_IC j st st'"
proof (rule forM_frame_IC [where ok = "\<lambda>st. \<forall>i<n. cell_ok (i_matrix st) (int i) j \<and> cell_ok (c_matrix st) (int i) j
     \<and> cell_ok (i_matrix st) (int i) j2 \<and> cell_ok (c_matrix st) (int i) j2"])
  show "\<forall>i<n. cell_ok (i_matrix st) (int i) j \<and> cell_ok (c_matrix st) (int i) j
     \<and> cell_ok (i_matrix st) (int i) j2 \<and> cell_ok (c_matrix st) (int i) j2" by fact
qed (auto simp: frame_IC_cell_ok intro: boot_add_cell_frame)

lemma enumerate_snoc: "enumerate k (xs @ [x]) = enumerate k xs @ [(k + length xs, x)]"
  by (simp add: enumerate_append_eq)

lemma boot_hamming_loop:
  assumes "\<forall>i<length edges. cell_ok (hamming st) (int i) j \<and> cell_ok (c_matrix st) (int i) j
              \<and> cell_ok (i_matrix st) (int i) j"
    and "length edges \<le> length (min_dist st)" and "length edges \<le> length (min_dist_edge st)"
  shows "\<exists>st'. forM (enumerate 0 edges) (boot_hamming_cell rs ntips j) st = Some st'
     \<and> i_matrix st' = i_matrix st \<and> c_matrix st' = c_matrix st
     \<and> same_dims (hamming st) (hamming st')
     \<and> length (min_dist st') = length (min_dist st)
     \<and> length (min_dist_edge st') = length (min_dist_edge st)
     \<and> (\<forall>i' j'. 0 \<le> i' \<longrightarrow> 0 \<le> j' \<longrightarrow> rd (hamming st') i' j' =
            (if i' < int (length edges) \<and> j' = j then hval rs ntips edges st j (nat i')
             else rd (hamming st) i' j'))
     \<and> (\<forall>i. min_dist st' ! i =
            (if i < length edges then min (min_dist st ! i) (hval rs ntips edges st j i)
             else min_dist st ! i))
     \<and> (\<forall>i. min_dist_edge st' ! i =
            (if i < length edges \<and> hval rs ntips edges st j i < min_dist st ! i then j
             else min_dist_edge st ! i))"
  using assms
proof (induction edges rule: rev_induct)
  case Nil
  show ?case by simp
next
  case (snoc e es)
  let ?n = "length es"
  from snoc obtain st1 where 1: "forM (enumerate 0 es) (boot_hamming_cell rs ntips j) st = Some st1"
     "i_matrix st1 = i_matrix st" "c_matrix st1 = c_matrix st"
     "same_dims (hamming st) (hamming st1)"
     "length (min_dist st1) = length (min_dist st)"
     "length (min_dist_edge st1) = length (min_dist_edge st)"
     and rd1: "\<And>i' j'. 0 \<le> i' \<Longrightarrow> 0 \<le> j' \<Longrightarrow> rd (hamming st1) i' j' =
            (if i' < int ?n \<and> j' = j then hval rs ntips es st j (nat i')
             else rd (hamming st) i' j')"
     and md1: "\<And>i. min_dist st1 ! i =
            (if i < ?n then min (min_dist st ! i) (hval rs ntips es st j i)
             else min_dist st ! i)"
     and mde1: "\<And>i. min_dist_edge st1 ! i =
            (if i < ?n \<and> hval rs ntips es st j i < min_dist st ! i then j
             else min_dist_edge st ! i)"
    by (auto simp: less_Suc_eq)
  have hv_old: "hval rs ntips (es @ [e]) st j i = hval rs ntips es st j i" if "i < ?n" for i
    using that by (simp add: hval_def nth_append)
  let ?h = "hval rs ntips (es @ [e]) st j ?n"
  have ok: "cell_ok (hamming st1) (int ?n) j" "cell_ok (c_matrix st1) (int ?n) j"
    "cell_ok (i_matrix st1) (int ?n) j" "?n < length (min_dist st1)" "?n < length (min_dist_edge st1)"
    using snoc.prems 1 by (simp_all add: cell_ok_same_dims)
  define st' where "st' = (if ?h < min_dist st1 ! ?n
      then st1\<lparr>hamming := wr (hamming st1) (int ?n) j ?h,
                min_dist := (min_dist st1)[?n := ?h],
                min_dist_edge := (min_dist_edge st1)[?n := j]\<rparr>
      else st1\<lparr>hamming := wr (hamming st1) (int ?n) j ?h\<rparr>)"
  have "boot_hamming_cell rs ntips j (?n, e) st1 = Some st'"
    using ok by (simp add: boot_hamming_cell_def st'_def Let_def hval_def 1)
  then have run: "forM (enumerate 0 (es @ [e])) (boot_hamming_cell rs ntips j) st = Some st'"
    by (simp add: enumerate_snoc forM_snoc 1(1))
  have a: "i_matrix st' = i_matrix st" "c_matrix st' = c_matrix st"
    "same_dims (hamming st) (hamming st')"
    "length (min_dist st') = length (min_dist st)"
    "length (min_dist_edge st') = length (min_dist_edge st)"
    using 1 by (auto simp: st'_def intro: same_dims_trans [OF _ same_dims_wr])
  have b: "rd (hamming st') i' j' =
            (if i' < int (length (es @ [e])) \<and> j' = j then hval rs ntips (es @ [e]) st j (nat i')
             else rd (hamming st) i' j')" if "0 \<le> i'" "0 \<le> j'" for i' j'
  proof -
    have "rd (hamming st') i' j' = (if i' = int ?n \<and> j' = j then ?h else rd (hamming st1) i' j')"
      using that ok by (simp add: st'_def rd_wr)
    then show ?thesis
      using that rd1 [OF that] hv_old [of "nat i'"] by (auto simp: nat_less_iff)
  qed
  have md0: "min_dist st1 ! ?n = min_dist st ! ?n" using md1 [of ?n] by simp
  have c: "min_dist st' ! i =
            (if i < length (es @ [e]) then min (min_dist st ! i) (hval rs ntips (es @ [e]) st j i)
             else min_dist st ! i)" for i
    using ok md1 [of i] md0 hv_old [of i]
    by (auto simp: st'_def nth_list_update less_Suc_eq min_def)
  have mde0: "min_dist_edge st1 ! ?n = min_dist_edge st ! ?n" using mde1 [of ?n] by simp
  have d: "min_dist_edge st' ! i =
            (if i < length (es @ [e]) \<and> hval rs ntips (es @ [e]) st j i < min_dist st ! i then j
             else min_dist_edge st ! i)" for i
    using ok mde1 [of i] mde0 md0 hv_old [of i]
    by (auto simp: st'_def nth_list_update less_Suc_eq)
  from run a b c d show ?case by blast
qed

lemma dp_wide_same_dims: "dp_same_dims st st' \<Longrightarrow> dp_wide st n nb \<Longrightarrow> dp_wide st' n nb"
  by (auto simp: dp_wide_def dp_same_dims_def intro: wide_same_dims)

lemma boot_post_dims: "boot_post rs ntips edges J X T st st' \<Longrightarrow> dp_same_dims st st'"
  by (simp add: boot_post_def)

lemma dp_same_dims_trans: "dp_same_dims st st1 \<Longrightarrow> dp_same_dims st1 st2 \<Longrightarrow> dp_same_dims st st2"
  by (auto simp: dp_same_dims_def intro: same_dims_trans)

lemma boot_postI:
  assumes "dp_same_dims st st'" "T \<subseteq> J" "\<And>j. j \<in> J \<Longrightarrow> 0 \<le> j"
    and "\<And>i' j'. 0 \<le> i' \<Longrightarrow> 0 \<le> j' \<Longrightarrow> j' \<notin> J \<Longrightarrow>
             rd (hamming st') i' j' = rd (hamming st) i' j'"
    and "\<And>i' j'. 0 \<le> i' \<Longrightarrow> 0 \<le> j' \<Longrightarrow> j' \<notin> (J - T) \<union> X \<Longrightarrow>
             rd (i_matrix st') i' j' = rd (i_matrix st) i' j'
           \<and> rd (c_matrix st') i' j' = rd (c_matrix st) i' j'"
    and "\<And>i j. i < length edges \<Longrightarrow> j \<in> J \<Longrightarrow>
             rd (hamming st') (int i) j = hval rs ntips edges st' j i"
    and "\<And>i. i < length edges \<Longrightarrow> min_dist st' ! i \<le> min_dist st ! i
             \<and> (\<forall>j\<in>J. min_dist st' ! i \<le> rd (hamming st') (int i) j)
             \<and> (min_dist st' ! i = min_dist st ! i
                 \<or> (\<exists>j\<in>J. min_dist st' ! i = rd (hamming st') (int i) j))"
    and "\<And>i. i < length edges \<Longrightarrow>
             (if min_dist st' ! i < min_dist st ! i
             then min_dist_edge st' ! i \<in> J
                  \<and> rd (hamming st') (int i) (min_dist_edge st' ! i) = min_dist st' ! i
             else min_dist_edge st' ! i = min_dist_edge st ! i)"
  shows "boot_post rs ntips edges J X T st st'"
  unfolding boot_post_def by (intro conjI; (use assms in blast))

lemma boot_postD:
  assumes "boot_post rs ntips edges J X T st st'"
  shows "dp_same_dims st st'" "T \<subseteq> J" "\<And>j. j \<in> J \<Longrightarrow> 0 \<le> j"
    and "\<And>i' j'. 0 \<le> i' \<Longrightarrow> 0 \<le> j' \<Longrightarrow> j' \<notin> J \<Longrightarrow>
             rd (hamming st') i' j' = rd (hamming st) i' j'"
    and "\<And>i' j'. 0 \<le> i' \<Longrightarrow> 0 \<le> j' \<Longrightarrow> j' \<notin> (J - T) \<union> X \<Longrightarrow>
             rd (i_matrix st') i' j' = rd (i_matrix st) i' j'
           \<and> rd (c_matrix st') i' j' = rd (c_matrix st) i' j'"
    and "\<And>i j. i < length edges \<Longrightarrow> j \<in> J \<Longrightarrow>
             rd (hamming st') (int i) j = hval rs ntips edges st' j i"
    and "\<And>i. i < length edges \<Longrightarrow> min_dist st' ! i \<le> min_dist st ! i
             \<and> (\<forall>j\<in>J. min_dist st' ! i \<le> rd (hamming st') (int i) j)
             \<and> (min_dist st' ! i = min_dist st ! i
                 \<or> (\<exists>j\<in>J. min_dist st' ! i = rd (hamming st') (int i) j))"
    and "\<And>i. i < length edges \<Longrightarrow>
             (if min_dist st' ! i < min_dist st ! i
             then min_dist_edge st' ! i \<in> J
                  \<and> rd (hamming st') (int i) (min_dist_edge st' ! i) = min_dist st' ! i
             else min_dist_edge st' ! i = min_dist_edge st ! i)"
  using assms unfolding boot_post_def by blast+

lemma boot_post_weaken:
  assumes "boot_post rs ntips edges J X T st st'" "T' \<subseteq> T" "(J - T) \<union> X \<subseteq> (J - T') \<union> X'"
  shows "boot_post rs ntips edges J X' T' st st'"
proof (rule boot_postI)
  show "T' \<subseteq> J" using boot_postD(2) [OF assms(1)] assms(2) by blast
  show "rd (i_matrix st') i' j' = rd (i_matrix st) i' j'
           \<and> rd (c_matrix st') i' j' = rd (c_matrix st) i' j'"
    if "0 \<le> i'" "0 \<le> j'" "j' \<notin> (J - T') \<union> X'" for i' j'
  proof -
    have "j' \<notin> (J - T) \<union> X" using that(3) assms(3) by blast
    then show ?thesis using boot_postD(5) [OF assms(1) that(1,2)] by simp
  qed
qed (use boot_postD [OF assms(1)] in blast)+

lemma frame_IC_boot_post:
  assumes "frame_IC p st st'"
  shows "boot_post rs ntips edges {} {p} {} st st'"
  using assms by (intro boot_postI) (simp_all add: frame_IC_def dp_same_dims_def)

lemma boot_post_comp:
  assumes 1: "boot_post rs ntips edges J1 X1 T1 st st1"
    and 2: "boot_post rs ntips edges J2 X2 T2 st1 st2"
    and disj: "J1 \<inter> (J2 \<union> X2) = {}"
  shows "boot_post rs ntips edges (J1 \<union> J2) (X1 \<union> X2) (T1 \<union> T2) st st2"
proof -
  let ?n = "length edges"
  note T = boot_postD(2) [OF 1] boot_postD(2) [OF 2]
  note pos = boot_postD(3) [OF 1] boot_postD(3) [OF 2]
  note H1 = boot_postD(4) [OF 1] and H2 = boot_postD(4) [OF 2]
  note IC1 = boot_postD(5) [OF 1] and IC2 = boot_postD(5) [OF 2]
  note hv1 = boot_postD(6) [OF 1] and hv2 = boot_postD(6) [OF 2]
  note md1 = boot_postD(7) [OF 1] and md2 = boot_postD(7) [OF 2]
  note mde1 = boot_postD(8) [OF 1] and mde2 = boot_postD(8) [OF 2]
  have keepH: "rd (hamming st2) (int i) j = rd (hamming st1) (int i) j" if "j \<in> J1" for i j
    using that H2 [of "int i" j] pos(1) [of j] disj by auto
  have A: "dp_same_dims st st2"
    using boot_postD(1) [OF 1] boot_postD(1) [OF 2] by (rule dp_same_dims_trans)
  have B: "rd (hamming st2) i' j' = rd (hamming st) i' j'" if "0 \<le> i'" "0 \<le> j'" "j' \<notin> J1 \<union> J2" for i' j'
    using that H1 [of i' j'] H2 [of i' j'] by simp
  have C: "rd (i_matrix st2) i' j' = rd (i_matrix st) i' j'
           \<and> rd (c_matrix st2) i' j' = rd (c_matrix st) i' j'"
    if "0 \<le> i'" "0 \<le> j'" "j' \<notin> ((J1 \<union> J2) - (T1 \<union> T2)) \<union> (X1 \<union> X2)" for i' j'
  proof -
    have "j' \<notin> (J1 - T1) \<union> X1" "j' \<notin> (J2 - T2) \<union> X2"
      using that(3) T disj by auto
    then show ?thesis using IC1 [of i' j'] IC2 [of i' j'] that by simp
  qed
  have D: "rd (hamming st2) (int i) j = hval rs ntips edges st2 j i" if "i < ?n" "j \<in> J1 \<union> J2" for i j
  proof (cases "j \<in> J2")
    case True
    then show ?thesis using hv2 that by simp
  next
    case False
    then have j: "j \<in> J1" using that by simp
    then have "j \<notin> (J2 - T2) \<union> X2" "0 \<le> j" using disj pos(1) [of j] by auto
    then have "hval rs ntips edges st2 j i = hval rs ntips edges st1 j i"
      using IC2 [of "int i" j] by (simp add: hval_def)
    then show ?thesis using keepH [OF j] hv1 [OF that(1) j] by simp
  qed
  have E: "min_dist st2 ! i \<le> min_dist st ! i
             \<and> (\<forall>j\<in>J1 \<union> J2. min_dist st2 ! i \<le> rd (hamming st2) (int i) j)
             \<and> (min_dist st2 ! i = min_dist st ! i
                 \<or> (\<exists>j\<in>J1 \<union> J2. min_dist st2 ! i = rd (hamming st2) (int i) j))" if "i < ?n" for i
  proof (intro conjI ballI)
    show "min_dist st2 ! i \<le> min_dist st ! i"
      using md1 [OF that] md2 [OF that] by (meson order_trans)
    show "min_dist st2 ! i \<le> rd (hamming st2) (int i) j" if "j \<in> J1 \<union> J2" for j
    proof (cases "j \<in> J2")
      case True
      then show ?thesis using md2 [OF \<open>i < ?n\<close>] by blast
    next
      case False
      then have j: "j \<in> J1" using that by simp
      then have "min_dist st1 ! i \<le> rd (hamming st1) (int i) j" using md1 [OF \<open>i < ?n\<close>] by blast
      then show ?thesis using md2 [OF \<open>i < ?n\<close>] keepH [OF j, of i] by (metis order_trans)
    qed
    show "min_dist st2 ! i = min_dist st ! i
                 \<or> (\<exists>j\<in>J1 \<union> J2. min_dist st2 ! i = rd (hamming st2) (int i) j)"
    proof (cases "min_dist st2 ! i = min_dist st1 ! i")
      case True
      show ?thesis
      proof (cases "min_dist st1 ! i = min_dist st ! i")
        case True
        with \<open>min_dist st2 ! i = min_dist st1 ! i\<close> show ?thesis by simp
      next
        case False
        then obtain j where "j \<in> J1" "min_dist st1 ! i = rd (hamming st1) (int i) j"
          using md1 [OF \<open>i < ?n\<close>] by blast
        then show ?thesis using True keepH [of j i] by (metis UnI1)
      qed
    next
      case False
      then show ?thesis using md2 [OF \<open>i < ?n\<close>] by blast
    qed
  qed
  have F: "(if min_dist st2 ! i < min_dist st ! i
             then min_dist_edge st2 ! i \<in> J1 \<union> J2
                  \<and> rd (hamming st2) (int i) (min_dist_edge st2 ! i) = min_dist st2 ! i
             else min_dist_edge st2 ! i = min_dist_edge st ! i)" if "i < ?n" for i
  proof (cases "min_dist st2 ! i < min_dist st1 ! i")
    case True
    then show ?thesis using mde2 [OF that] md1 [OF that] by auto
  next
    case False
    then have eq: "min_dist st2 ! i = min_dist st1 ! i" "min_dist_edge st2 ! i = min_dist_edge st1 ! i"
      using md2 [OF that] mde2 [OF that] by auto
    show ?thesis using mde1 [OF that] keepH [of "min_dist_edge st1 ! i" i] by (auto simp: eq)
  qed
  show ?thesis
  proof (rule boot_postI)
    show "T1 \<union> T2 \<subseteq> J1 \<union> J2" using T by blast
    show "0 \<le> j" if "j \<in> J1 \<union> J2" for j using that pos by blast
  qed (use A B C D E F in blast)+
qed

lemma hamming_boot_post:
  assumes w: "dp_wide st (length edges) nb" and j: "0 \<le> j" "j < int nb"
  shows "\<exists>st'. forM (enumerate 0 edges) (boot_hamming_cell rs ntips j) st = Some st'
     \<and> boot_post rs ntips edges {j} {} {j} st st'"
proof -
  have "\<forall>i<length edges. cell_ok (hamming st) (int i) j \<and> cell_ok (c_matrix st) (int i) j
              \<and> cell_ok (i_matrix st) (int i) j"
    using w j by (auto simp: dp_wide_def intro: wide_cell_ok)
  moreover have "length edges \<le> length (min_dist st)" "length edges \<le> length (min_dist_edge st)"
    using w by (auto simp: dp_wide_def)
  ultimately obtain st' where run: "forM (enumerate 0 edges) (boot_hamming_cell rs ntips j) st = Some st'"
    and ic: "i_matrix st' = i_matrix st" "c_matrix st' = c_matrix st"
    and dims: "same_dims (hamming st) (hamming st')" "length (min_dist st') = length (min_dist st)"
      "length (min_dist_edge st') = length (min_dist_edge st)"
    and h: "\<And>i' j'. 0 \<le> i' \<Longrightarrow> 0 \<le> j' \<Longrightarrow> rd (hamming st') i' j' =
            (if i' < int (length edges) \<and> j' = j then hval rs ntips edges st j (nat i')
             else rd (hamming st) i' j')"
    and md: "\<And>i. min_dist st' ! i =
            (if i < length edges then min (min_dist st ! i) (hval rs ntips edges st j i)
             else min_dist st ! i)"
    and mde: "\<And>i. min_dist_edge st' ! i =
            (if i < length edges \<and> hval rs ntips edges st j i < min_dist st ! i then j
             else min_dist_edge st ! i)"
    using boot_hamming_loop [of edges st j rs ntips] by blast
  have hv: "hval rs ntips edges st' j' i = hval rs ntips edges st j' i" for j' i
    by (simp add: hval_def ic)
  have hj: "rd (hamming st') (int i) j = hval rs ntips edges st j i" if "i < length edges" for i
    using h [of "int i" j] j that by simp
  have "boot_post rs ntips edges {j} {} {j} st st'"
  proof (rule boot_postI)
    show "dp_same_dims st st'" using ic dims by (simp add: dp_same_dims_def)
    show "rd (hamming st') i' j' = rd (hamming st) i' j'" if "0 \<le> i'" "0 \<le> j'" "j' \<notin> {j}" for i' j'
      using h [OF that(1,2)] that(3) by simp
    show "rd (hamming st') (int i) j' = hval rs ntips edges st' j' i"
      if "i < length edges" "j' \<in> {j}" for i j'
      using that hj hv by simp
    show "min_dist st' ! i \<le> min_dist st ! i
             \<and> (\<forall>j\<in>{j}. min_dist st' ! i \<le> rd (hamming st') (int i) j)
             \<and> (min_dist st' ! i = min_dist st ! i
                 \<or> (\<exists>j\<in>{j}. min_dist st' ! i = rd (hamming st') (int i) j))"
      if "i < length edges" for i
      using that md [of i] hj [OF that] by (auto simp: min_def)
    show "if min_dist st' ! i < min_dist st ! i
             then min_dist_edge st' ! i \<in> {j}
                  \<and> rd (hamming st') (int i) (min_dist_edge st' ! i) = min_dist st' ! i
             else min_dist_edge st' ! i = min_dist_edge st ! i"
      if "i < length edges" for i
      using that md [of i] mde [of i] hj [OF that] by (auto simp: min_def)
  qed (use j ic in simp_all)
  with run show ?thesis by blast
qed

lemma ids_simps [simp]:
  "ids bs [] = []" "ids bs (e # es) = id_e (bs (fst e)) # ids bs es"
  "ids bs (es @ es') = ids bs es @ ids bs es'"
  by (simp_all add: ids_def)

lemma edgesRecur_Node [simp]: "edgesRecur (Node nm ks) = edgesRecur_kids ks"
  by simp

lemma dp_wide_cells:
  assumes "dp_wide st n nb" "0 \<le> j" "j < int nb"
  shows "\<forall>i<n. cell_ok (i_matrix st) (int i) j \<and> cell_ok (c_matrix st) (int i) j"
  using assms by (auto simp: dp_wide_def intro: wide_cell_ok)

lemma frame_IC_dims: "frame_IC j st st' \<Longrightarrow> dp_same_dims st st'"
  by (simp add: frame_IC_def dp_same_dims_def)

lemma update_boot_post:
  shows "dp_wide st (length edges) nb \<Longrightarrow>
         (\<forall>j\<in>set (ids bs ((a, n) # edgesRecur n)). 0 \<le> j \<and> j < int nb) \<Longrightarrow>
         distinct (ids bs ((a, n) # edgesRecur n)) \<Longrightarrow>
         \<exists>st'. update_i_c_post_order_boot_tree rs ntips edges bs a n st = Some st'
           \<and> boot_post rs ntips edges (set (ids bs ((a, n) # edgesRecur n))) {}
                 (set (ids bs (filter right_tip ((a, n) # edgesRecur n)))) st st'"
    and "dp_wide st (length edges) nb \<Longrightarrow> 0 \<le> p \<Longrightarrow> p < int nb \<Longrightarrow>
         (\<forall>j\<in>set (ids bs (edgesRecur_kids ks)). 0 \<le> j \<and> j < int nb) \<Longrightarrow>
         distinct (p # ids bs (edgesRecur_kids ks)) \<Longrightarrow>
         \<exists>st'. update_boot_kids rs ntips edges bs p ks st = Some st'
           \<and> boot_post rs ntips edges (set (ids bs (edgesRecur_kids ks))) {p}
                 (set (ids bs (filter right_tip (edgesRecur_kids ks)))) st st'"
proof (induction rs ntips edges bs a n st and rs ntips edges bs p ks st
    rule: update_i_c_post_order_boot_tree_update_boot_kids.induct)
  case (1 rs ntips edges bs a nm ks st)
  let ?j = "id_e (bs a)"
  let ?Jk = "set (ids bs (edgesRecur_kids ks))"
  let ?Tk = "set (ids bs (filter right_tip (edgesRecur_kids ks)))"
  from "1.prems" have j: "0 \<le> ?j" "?j < int nb" and jk: "?j \<notin> ?Jk"
    and rk: "\<forall>j\<in>?Jk. 0 \<le> j \<and> j < int nb" and dk: "distinct (?j # ids bs (edgesRecur_kids ks))"
    by auto
  show ?case
  proof (cases "Tip False (Node nm ks)")
    case True
    then have ks: "ks = []" by (simp add: Tip_def Nneigh_def)
    from hamming_boot_post [OF "1.prems"(1) j, of rs ntips]
    show ?thesis using True by (simp add: ks right_tip_def)
  next
    case False
    then have nt: "\<not> right_tip (a, Node nm ks)" by (simp add: right_tip_def)
    from boot_zero_loop_frame [OF dp_wide_cells [OF "1.prems"(1) j]]
    obtain st1 where z: "forM [0..<length edges] (boot_zero_cell ?j) st = Some st1"
      and f1: "frame_IC ?j st st1" by blast
    have w1: "dp_wide st1 (length edges) nb"
      using dp_wide_same_dims [OF frame_IC_dims [OF f1] "1.prems"(1)] .
    from "1.IH" [OF False z w1 j rk dk]
    obtain st2 where k: "update_boot_kids rs ntips edges bs ?j ks st1 = Some st2"
      and p2: "boot_post rs ntips edges ?Jk {?j} ?Tk st1 st2" by blast
    have w2: "dp_wide st2 (length edges) nb"
      using dp_wide_same_dims [OF boot_postD(1) [OF p2] w1] .
    from hamming_boot_post [OF w2 j, of rs ntips]
    obtain st3 where h: "forM (enumerate 0 edges) (boot_hamming_cell rs ntips ?j) st2 = Some st3"
      and p3: "boot_post rs ntips edges {?j} {} {?j} st2 st3" by blast
    have "boot_post rs ntips edges ({} \<union> ?Jk) ({?j} \<union> {?j}) ({} \<union> ?Tk) st st2"
      by (rule boot_post_comp [OF frame_IC_boot_post [OF f1] p2]) simp
    then have "boot_post rs ntips edges (({} \<union> ?Jk) \<union> {?j}) (({?j} \<union> {?j}) \<union> {}) (({} \<union> ?Tk) \<union> {?j}) st st3"
      by (rule boot_post_comp [OF _ p3]) (use jk in simp)
    then have pp: "boot_post rs ntips edges (insert ?j ?Jk) {?j} (insert ?j ?Tk) st st3"
      by simp
    have tk: "?Tk \<subseteq> ?Jk" by (auto simp: ids_def)
    have "boot_post rs ntips edges (insert ?j ?Jk) {} ?Tk st st3"
      by (rule boot_post_weaken [OF pp]) (use tk jk in auto)
    then show ?thesis using False z k h nt by simp
  qed
next
  case (2 rs ntips edges bs edge_id st)
  show ?case using frame_IC_boot_post [OF frame_IC_refl] by simp
next
  case (3 rs ntips edges bs edge_id a2 child ks st)
  let ?p = edge_id
  let ?j2 = "id_e (bs a2)"
  let ?Jc = "set (ids bs ((a2, child) # edgesRecur child))"
  let ?Tc = "set (ids bs (filter right_tip ((a2, child) # edgesRecur child)))"
  let ?Jr = "set (ids bs (edgesRecur_kids ks))"
  let ?Tr = "set (ids bs (filter right_tip (edgesRecur_kids ks)))"
  from "3.prems" have rc: "\<forall>j\<in>?Jc. 0 \<le> j \<and> j < int nb" and dc: "distinct (ids bs ((a2, child) # edgesRecur child))"
    and rr: "\<forall>j\<in>?Jr. 0 \<le> j \<and> j < int nb" and dr: "distinct (?p # ids bs (edgesRecur_kids ks))"
    and pc: "?p \<notin> ?Jc" and cr: "?Jc \<inter> ?Jr = {}" and j2: "0 \<le> ?j2" "?j2 < int nb"
    by auto
  from "3.IH"(1) [OF "3.prems"(1) rc dc]
  obtain st1 where c: "update_i_c_post_order_boot_tree rs ntips edges bs a2 child st = Some st1"
    and p1: "boot_post rs ntips edges ?Jc {} ?Tc st st1" by blast
  have w1: "dp_wide st1 (length edges) nb"
    using dp_wide_same_dims [OF boot_postD(1) [OF p1] "3.prems"(1)] .
  have "\<forall>i<length edges. cell_ok (i_matrix st1) (int i) ?p \<and> cell_ok (c_matrix st1) (int i) ?p
     \<and> cell_ok (i_matrix st1) (int i) ?j2 \<and> cell_ok (c_matrix st1) (int i) ?j2"
    using dp_wide_cells [OF w1 "3.prems"(2,3)] dp_wide_cells [OF w1 j2] by simp
  from boot_add_loop_frame [OF this]
  obtain st2 where ad: "forM [0..<length edges] (boot_add_cell ?p ?j2) st1 = Some st2"
    and f2: "frame_IC ?p st1 st2" by blast
  have w2: "dp_wide st2 (length edges) nb"
    using dp_wide_same_dims [OF frame_IC_dims [OF f2] w1] .
  from "3.IH"(2) [OF c ad w2 "3.prems"(2,3) rr dr]
  obtain st3 where k: "update_boot_kids rs ntips edges bs ?p ks st2 = Some st3"
    and p3: "boot_post rs ntips edges ?Jr {?p} ?Tr st2 st3" by blast
  have "boot_post rs ntips edges (?Jc \<union> {}) ({} \<union> {?p}) (?Tc \<union> {}) st st2"
    by (rule boot_post_comp [OF p1 frame_IC_boot_post [OF f2]]) (use pc in simp)
  then have pp: "boot_post rs ntips edges ((?Jc \<union> {}) \<union> ?Jr) (({} \<union> {?p}) \<union> {?p}) ((?Tc \<union> {}) \<union> ?Tr) st st3"
    by (rule boot_post_comp [OF _ p3]) (use pc cr in auto)
  have eqs: "(?Jc \<union> {}) \<union> ?Jr = set (ids bs (edgesRecur_kids ((a2, child) # ks)))"
    "({} \<union> {?p}) \<union> {?p} = {?p}"
    "(?Tc \<union> {}) \<union> ?Tr = set (ids bs (filter right_tip (edgesRecur_kids ((a2, child) # ks))))"
    by auto
  have run: "update_boot_kids rs ntips edges bs ?p ((a2, child) # ks) st = Some st3"
    using c ad k by simp
  from pp [unfolded eqs] run show ?case by blast
qed

lemma frame_row_refl [simp]: "frame_row p st st"
  by (simp add: frame_row_def)

lemma frame_row_trans: "frame_row p st st1 \<Longrightarrow> frame_row p st1 st2 \<Longrightarrow> frame_row p st st2"
  by (auto simp: frame_row_def intro: same_dims_trans)

lemma frame_row_cell_ok:
  "frame_row p st st' \<Longrightarrow> cell_ok (i_matrix st') a b = cell_ok (i_matrix st) a b
     \<and> cell_ok (c_matrix st') a b = cell_ok (c_matrix st) a b"
  by (simp add: frame_row_def cell_ok_same_dims)

lemma forM_frame_row:
  assumes step: "\<And>x st. x \<in> set xs \<Longrightarrow> ok st \<Longrightarrow> \<exists>st'. f x st = Some st' \<and> frame_row p st st'"
    and pres: "\<And>st st'. ok st \<Longrightarrow> frame_row p st st' \<Longrightarrow> ok st'"
    and "ok st"
  shows "\<exists>st'. forM xs f st = Some st' \<and> frame_row p st st'"
  using assms
proof (induction xs arbitrary: st)
  case Nil
  show ?case by simp
next
  case (Cons x xs)
  from Cons.prems obtain st1 where 1: "f x st = Some st1" "frame_row p st st1"
    by (meson list.set_intros(1))
  then have "ok st1" using Cons.prems by blast
  with Cons.IH [of st1] Cons.prems obtain st2 where "forM xs f st1 = Some st2" "frame_row p st1 st2"
    by (meson list.set_intros(2))
  with 1 show ?case by (auto intro: frame_row_trans)
qed

lemma in_set_enumerate_lt: "(k, x) \<in> set (enumerate 0 xs) \<Longrightarrow> k < length xs"
  by (simp add: in_set_enumerate_eq)

lemma ref_init_cell_frame:
  assumes "cell_ok (i_matrix st) p (int k)" "cell_ok (c_matrix st) p (int k)"
  shows "\<exists>st'. ref_init_cell p (k, be) st = Some st' \<and> frame_row p st st'"
  using assms by (simp add: ref_init_cell_def frame_row_def rd_wr)

lemma ref_merge_cell_frame:
  assumes "cell_ok (i_matrix st) p (int k)" "cell_ok (c_matrix st) p (int k)"
    "cell_ok (i_matrix st) p2 (int k)" "cell_ok (c_matrix st) p2 (int k)"
  shows "\<exists>st'. ref_merge_cell p p2 (k, be) st = Some st' \<and> frame_row p st st'"
  using assms by (simp add: ref_merge_cell_def or_cell_def and_cell_def frame_row_def rd_wr)

lemma ref_init_loop_frame:
  assumes "\<forall>k<length B. cell_ok (i_matrix st) p (int k) \<and> cell_ok (c_matrix st) p (int k)"
  shows "\<exists>st'. forM (enumerate 0 B) (ref_init_cell p) st = Some st' \<and> frame_row p st st'"
proof (rule forM_frame_row [where ok = "\<lambda>st. \<forall>k<length B. cell_ok (i_matrix st) p (int k) \<and> cell_ok (c_matrix st) p (int k)"])
  show "\<forall>k<length B. cell_ok (i_matrix st) p (int k) \<and> cell_ok (c_matrix st) p (int k)" by fact
qed (auto simp: frame_row_cell_ok dest: in_set_enumerate_lt intro: ref_init_cell_frame)

lemma ref_merge_loop_frame:
  assumes "\<forall>k<length B. cell_ok (i_matrix st) p (int k) \<and> cell_ok (c_matrix st) p (int k)
     \<and> cell_ok (i_matrix st) p2 (int k) \<and> cell_ok (c_matrix st) p2 (int k)"
  shows "\<exists>st'. forM (enumerate 0 B) (ref_merge_cell p p2) st = Some st' \<and> frame_row p st st'"
proof (rule forM_frame_row [where ok = "\<lambda>st. \<forall>k<length B. cell_ok (i_matrix st) p (int k) \<and> cell_ok (c_matrix st) p (int k)
     \<and> cell_ok (i_matrix st) p2 (int k) \<and> cell_ok (c_matrix st) p2 (int k)"])
  show "\<forall>k<length B. cell_ok (i_matrix st) p (int k) \<and> cell_ok (c_matrix st) p (int k)
     \<and> cell_ok (i_matrix st) p2 (int k) \<and> cell_ok (c_matrix st) p2 (int k)" by fact
qed (auto simp: frame_row_cell_ok dest: in_set_enumerate_lt intro: ref_merge_cell_frame)

text \<open>The row that the first pass writes for a terminal edge of the reference tree.\<close>

lemma ref_tip_loop:
  assumes "\<forall>k<length B. cell_ok (i_matrix st) p (int k) \<and> cell_ok (c_matrix st) p (int k)"
  shows "\<exists>st'. forM (enumerate 0 B) (ref_tip_cell nm p) st = Some st' \<and> frame_row p st st'
     \<and> (\<forall>k<length B. right_tip (B ! k) \<longrightarrow>
           rd (i_matrix st') p (int k) = (if nm = name (snd (B ! k)) then 1 else 0)
         \<and> rd (c_matrix st') p (int k) = (if nm = name (snd (B ! k)) then 0 else 1))"
  using assms
proof (induction B rule: rev_induct)
  case Nil
  show ?case by simp
next
  case (snoc b B)
  let ?n = "length B"
  from snoc obtain st1 where 1: "forM (enumerate 0 B) (ref_tip_cell nm p) st = Some st1"
    and f1: "frame_row p st st1"
    and r1: "\<And>k. k < ?n \<Longrightarrow> right_tip (B ! k) \<Longrightarrow>
           rd (i_matrix st1) p (int k) = (if nm = name (snd (B ! k)) then 1 else 0)
         \<and> rd (c_matrix st1) p (int k) = (if nm = name (snd (B ! k)) then 0 else 1)"
    by (auto simp: less_Suc_eq)
  have ok: "cell_ok (i_matrix st1) p (int ?n)" "cell_ok (c_matrix st1) p (int ?n)"
    using snoc.prems f1 by (simp_all add: frame_row_cell_ok)
  then have p0: "0 \<le> p" by (simp add: cell_ok_def)
  define v :: "16 word \<times> 16 word" where "v = (if nm = name (snd b) then (1, 0) else (0, 1))"
  define st' where "st' = (if right_tip b
      then st1\<lparr>i_matrix := wr (i_matrix st1) p (int ?n) (fst v),
                c_matrix := wr (c_matrix st1) p (int ?n) (snd v)\<rparr>
      else st1)"
  have step: "ref_tip_cell nm p (?n, b) st1 = Some st'"
    using ok by (auto simp: ref_tip_cell_def st'_def v_def)
  then have run: "forM (enumerate 0 (B @ [b])) (ref_tip_cell nm p) st = Some st'"
    by (simp add: enumerate_snoc forM_snoc 1)
  have f': "frame_row p st1 st'"
    using ok by (simp add: st'_def frame_row_def rd_wr)
  have r': "rd (i_matrix st') p (int k) = (if nm = name (snd ((B @ [b]) ! k)) then 1 else 0)
         \<and> rd (c_matrix st') p (int k) = (if nm = name (snd ((B @ [b]) ! k)) then 0 else 1)"
    if "k < length (B @ [b])" "right_tip ((B @ [b]) ! k)" for k
  proof (cases "k < ?n")
    case True
    then have "rd (i_matrix st') p (int k) = rd (i_matrix st1) p (int k)"
      "rd (c_matrix st') p (int k) = rd (c_matrix st1) p (int k)"
      using ok p0 by (simp_all add: st'_def rd_wr)
    then show ?thesis using r1 [OF True] that True by (simp add: nth_append)
  next
    case False
    then have k: "k = ?n" using that by simp
    then show ?thesis using that ok p0 by (simp add: st'_def rd_wr v_def)
  qed
  from run frame_row_trans [OF f1 f'] r' show ?case by blast
qed

lemma wide_cell_ok_row:
  "wide m n nb \<Longrightarrow> 0 \<le> p \<Longrightarrow> p < int n \<Longrightarrow> k < nb \<Longrightarrow> cell_ok m p (int k)"
proof -
  assume w: "wide m n nb" and p: "0 \<le> p" "p < int n" and k: "k < nb"
  from p have "nat p < n" by linarith
  with w have "nat p < length m" "nb \<le> length (m ! nat p)" by (auto simp: wide_def)
  with p k show ?thesis by (simp add: cell_ok_def)
qed

lemma ref_wide_cells:
  assumes "ref_wide st n nb" "0 \<le> p" "p < int n"
  shows "\<forall>k<nb. cell_ok (i_matrix st) p (int k) \<and> cell_ok (c_matrix st) p (int k)"
  using assms by (auto simp: ref_wide_def intro: wide_cell_ok_row)

lemma frame_row_ref_wide: "frame_row p st st' \<Longrightarrow> ref_wide st n nb \<Longrightarrow> ref_wide st' n nb"
  by (auto simp: frame_row_def ref_wide_def intro: wide_same_dims)

lemma ref_postI:
  assumes "hamming st' = hamming st" "min_dist st' = min_dist st" "min_dist_edge st' = min_dist_edge st"
    and "same_dims (i_matrix st) (i_matrix st')" "same_dims (c_matrix st) (c_matrix st')"
    and "\<And>j. j \<in> set (ids rs Es) \<Longrightarrow> 0 \<le> j"
    and "\<And>i' j'. 0 \<le> i' \<Longrightarrow> 0 \<le> j' \<Longrightarrow> i' \<notin> set (ids rs Es) \<union> X \<Longrightarrow>
            rd (i_matrix st') i' j' = rd (i_matrix st) i' j'
          \<and> rd (c_matrix st') i' j' = rd (c_matrix st) i' j'"
    and "\<And>e k. e \<in> set Es \<Longrightarrow> right_tip e \<Longrightarrow> k < length B \<Longrightarrow> right_tip (B ! k) \<Longrightarrow>
            rd (i_matrix st') (id_e (rs (fst e))) (int k)
              = (if name (snd e) = name (snd (B ! k)) then 1 else 0)
          \<and> rd (c_matrix st') (id_e (rs (fst e))) (int k)
              = (if name (snd e) = name (snd (B ! k)) then 0 else 1)"
  shows "ref_post rs B Es X st st'"
  unfolding ref_post_def by (intro conjI; (use assms in blast))

lemma ref_postD:
  assumes "ref_post rs B Es X st st'"
  shows "hamming st' = hamming st" "min_dist st' = min_dist st" "min_dist_edge st' = min_dist_edge st"
    and "same_dims (i_matrix st) (i_matrix st')" "same_dims (c_matrix st) (c_matrix st')"
    and "\<And>j. j \<in> set (ids rs Es) \<Longrightarrow> 0 \<le> j"
    and "\<And>i' j'. 0 \<le> i' \<Longrightarrow> 0 \<le> j' \<Longrightarrow> i' \<notin> set (ids rs Es) \<union> X \<Longrightarrow>
            rd (i_matrix st') i' j' = rd (i_matrix st) i' j'
          \<and> rd (c_matrix st') i' j' = rd (c_matrix st) i' j'"
    and "\<And>e k. e \<in> set Es \<Longrightarrow> right_tip e \<Longrightarrow> k < length B \<Longrightarrow> right_tip (B ! k) \<Longrightarrow>
            rd (i_matrix st') (id_e (rs (fst e))) (int k)
              = (if name (snd e) = name (snd (B ! k)) then 1 else 0)
          \<and> rd (c_matrix st') (id_e (rs (fst e))) (int k)
              = (if name (snd e) = name (snd (B ! k)) then 0 else 1)"
  using assms unfolding ref_post_def by blast+

lemma ref_post_ref_wide: "ref_post rs B Es X st st' \<Longrightarrow> ref_wide st n nb \<Longrightarrow> ref_wide st' n nb"
  by (auto simp: ref_post_def ref_wide_def intro: wide_same_dims)

lemma frame_row_ref_post:
  assumes "frame_row p st st'"
  shows "ref_post rs B [] {p} st st'"
  using assms by (intro ref_postI) (simp_all add: frame_row_def)

lemma ref_post_comp:
  assumes 1: "ref_post rs B Es1 X1 st st1"
    and 2: "ref_post rs B Es2 X2 st1 st2"
    and disj: "set (ids rs Es1) \<inter> (set (ids rs Es2) \<union> X2) = {}"
  shows "ref_post rs B (Es1 @ Es2) (X1 \<union> X2) st st2"
proof (rule ref_postI)
  note pos = ref_postD(6) [OF 1] ref_postD(6) [OF 2]
  note R1 = ref_postD(7) [OF 1] and R2 = ref_postD(7) [OF 2]
  note T1 = ref_postD(8) [OF 1] and T2 = ref_postD(8) [OF 2]
  show "hamming st2 = hamming st" "min_dist st2 = min_dist st" "min_dist_edge st2 = min_dist_edge st"
    using ref_postD(1-3) [OF 1] ref_postD(1-3) [OF 2] by simp_all
  show "same_dims (i_matrix st) (i_matrix st2)" "same_dims (c_matrix st) (c_matrix st2)"
    using ref_postD(4,5) [OF 1] ref_postD(4,5) [OF 2] by (blast intro: same_dims_trans)+
  show "0 \<le> j" if "j \<in> set (ids rs (Es1 @ Es2))" for j
    using that pos by auto
  show "rd (i_matrix st2) i' j' = rd (i_matrix st) i' j'
          \<and> rd (c_matrix st2) i' j' = rd (c_matrix st) i' j'"
    if "0 \<le> i'" "0 \<le> j'" "i' \<notin> set (ids rs (Es1 @ Es2)) \<union> (X1 \<union> X2)" for i' j'
    using that R1 [of i' j'] R2 [of i' j'] by simp
  show "rd (i_matrix st2) (id_e (rs (fst e))) (int k)
              = (if name (snd e) = name (snd (B ! k)) then 1 else 0)
          \<and> rd (c_matrix st2) (id_e (rs (fst e))) (int k)
              = (if name (snd e) = name (snd (B ! k)) then 0 else 1)"
    if "e \<in> set (Es1 @ Es2)" "right_tip e" "k < length B" "right_tip (B ! k)" for e k
  proof (cases "e \<in> set Es2")
    case True
    then show ?thesis using T2 that by blast
  next
    case False
    then have e1: "e \<in> set Es1" using that by simp
    then have i1: "id_e (rs (fst e)) \<in> set (ids rs Es1)" by (auto simp: ids_def)
    then have "id_e (rs (fst e)) \<notin> set (ids rs Es2) \<union> X2" "0 \<le> id_e (rs (fst e))"
      using disj pos by auto
    then have "rd (i_matrix st2) (id_e (rs (fst e))) (int k) = rd (i_matrix st1) (id_e (rs (fst e))) (int k)"
      "rd (c_matrix st2) (id_e (rs (fst e))) (int k) = rd (c_matrix st1) (id_e (rs (fst e))) (int k)"
      using R2 [of "id_e (rs (fst e))" "int k"] by simp_all
    then show ?thesis using T1 [OF e1 that(2,3,4)] by simp
  qed
qed

lemma ref_post_internal:
  assumes "ref_post rs B Es {p} st st'" "p = id_e (rs (fst e))" "0 \<le> p" "\<not> right_tip e"
  shows "ref_post rs B (e # Es) {} st st'"
proof (rule ref_postI)
  show "rd (i_matrix st') i' j' = rd (i_matrix st) i' j'
          \<and> rd (c_matrix st') i' j' = rd (c_matrix st) i' j'"
    if "0 \<le> i'" "0 \<le> j'" "i' \<notin> set (ids rs (e # Es)) \<union> {}" for i' j'
    using that ref_postD(7) [OF assms(1), of i' j'] assms(2) by simp
  show "rd (i_matrix st') (id_e (rs (fst e'))) (int k)
              = (if name (snd e') = name (snd (B ! k)) then 1 else 0)
          \<and> rd (c_matrix st') (id_e (rs (fst e'))) (int k)
              = (if name (snd e') = name (snd (B ! k)) then 0 else 1)"
    if "e' \<in> set (e # Es)" "right_tip e'" "k < length B" "right_tip (B ! k)" for e' k
  proof -
    have "e' \<in> set Es" using that assms(4) by auto
    then show ?thesis using ref_postD(8) [OF assms(1) _ that(2,3,4)] by blast
  qed
  show "0 \<le> j" if "j \<in> set (ids rs (e # Es))" for j
    using that assms(2,3) ref_postD(6) [OF assms(1)] by auto
qed (use ref_postD [OF assms(1)] in simp_all)

lemma update_ref_post:
  shows "ref_wide st nr (length B) \<Longrightarrow>
         (\<forall>j\<in>set (ids rs ((a, n) # edgesRecur n)). 0 \<le> j \<and> j < int nr) \<Longrightarrow>
         distinct (ids rs ((a, n) # edgesRecur n)) \<Longrightarrow>
         \<exists>st'. update_i_c_post_order_ref_tree rs B a n st = Some st'
           \<and> ref_post rs B ((a, n) # edgesRecur n) {} st st'"
    and "ref_wide st nr (length B) \<Longrightarrow> 0 \<le> p \<Longrightarrow> p < int nr \<Longrightarrow>
         (\<forall>j\<in>set (ids rs (edgesRecur_kids ks)). 0 \<le> j \<and> j < int nr) \<Longrightarrow>
         distinct (p # ids rs (edgesRecur_kids ks)) \<Longrightarrow>
         \<exists>st'. update_ref_kids rs B p ks st = Some st'
           \<and> ref_post rs B (edgesRecur_kids ks) {p} st st'"
proof (induction rs B a n st and rs B p ks st
    rule: update_i_c_post_order_ref_tree_update_ref_kids.induct)
  case (1 rs B a nm ks st)
  let ?p = "id_e (rs a)"
  from "1.prems" have p: "0 \<le> ?p" "?p < int nr"
    and rk: "\<forall>j\<in>set (ids rs (edgesRecur_kids ks)). 0 \<le> j \<and> j < int nr"
    and dk: "distinct (?p # ids rs (edgesRecur_kids ks))"
    by auto
  note cells = ref_wide_cells [OF "1.prems"(1) p]
  show ?case
  proof (cases "Tip False (Node nm ks)")
    case True
    then have ks: "ks = []" by (simp add: Tip_def Nneigh_def)
    from ref_tip_loop [OF cells, of nm]
    obtain st' where run: "forM (enumerate 0 B) (ref_tip_cell nm ?p) st = Some st'"
      and f: "frame_row ?p st st'"
      and t: "\<And>k. k < length B \<Longrightarrow> right_tip (B ! k) \<Longrightarrow>
           rd (i_matrix st') ?p (int k) = (if nm = name (snd (B ! k)) then 1 else 0)
         \<and> rd (c_matrix st') ?p (int k) = (if nm = name (snd (B ! k)) then 0 else 1)"
      by blast
    have "ref_post rs B [(a, Node nm [])] {} st st'"
      using f t p by (intro ref_postI) (auto simp: frame_row_def)
    then show ?thesis using True run by (simp add: ks)
  next
    case False
    then have nt: "\<not> right_tip (a, Node nm ks)" by (simp add: right_tip_def)
    from ref_init_loop_frame [OF cells]
    obtain st1 where z: "forM (enumerate 0 B) (ref_init_cell ?p) st = Some st1"
      and f1: "frame_row ?p st st1" by blast
    have w1: "ref_wide st1 nr (length B)"
      using frame_row_ref_wide [OF f1 "1.prems"(1)] .
    from "1.IH" [OF False z w1 p rk dk]
    obtain st2 where k: "update_ref_kids rs B ?p ks st1 = Some st2"
      and p2: "ref_post rs B (edgesRecur_kids ks) {?p} st1 st2" by blast
    have "ref_post rs B ([] @ edgesRecur_kids ks) ({?p} \<union> {?p}) st st2"
      by (rule ref_post_comp [OF frame_row_ref_post [OF f1] p2]) simp
    then have "ref_post rs B (edgesRecur_kids ks) {?p} st st2" by simp
    then have "ref_post rs B ((a, Node nm ks) # edgesRecur_kids ks) {} st st2"
      by (rule ref_post_internal) (use p nt in simp_all)
    then show ?thesis using False z k by simp
  qed
next
  case (2 rs B edge_id st)
  show ?case using frame_row_ref_post [OF frame_row_refl] by simp
next
  case (3 rs B edge_id a2 child ks st)
  let ?p = edge_id
  let ?p2 = "id_e (rs a2)"
  let ?Ec = "(a2, child) # edgesRecur child"
  let ?Er = "edgesRecur_kids ks"
  from "3.prems" have rc: "\<forall>j\<in>set (ids rs ?Ec). 0 \<le> j \<and> j < int nr" and dc: "distinct (ids rs ?Ec)"
    and rr: "\<forall>j\<in>set (ids rs ?Er). 0 \<le> j \<and> j < int nr" and dr: "distinct (?p # ids rs ?Er)"
    and pc: "?p \<notin> set (ids rs ?Ec)" and cr: "set (ids rs ?Ec) \<inter> set (ids rs ?Er) = {}"
    and p2: "0 \<le> ?p2" "?p2 < int nr"
    by auto
  from "3.IH"(1) [OF "3.prems"(1) rc dc]
  obtain st1 where c: "update_i_c_post_order_ref_tree rs B a2 child st = Some st1"
    and q1: "ref_post rs B ?Ec {} st st1" by blast
  have w1: "ref_wide st1 nr (length B)"
    using ref_post_ref_wide [OF q1 "3.prems"(1)] .
  have "\<forall>k<length B. cell_ok (i_matrix st1) ?p (int k) \<and> cell_ok (c_matrix st1) ?p (int k)
     \<and> cell_ok (i_matrix st1) ?p2 (int k) \<and> cell_ok (c_matrix st1) ?p2 (int k)"
    using ref_wide_cells [OF w1 "3.prems"(2,3)] ref_wide_cells [OF w1 p2] by simp
  from ref_merge_loop_frame [OF this]
  obtain st2 where m: "forM (enumerate 0 B) (ref_merge_cell ?p ?p2) st1 = Some st2"
    and f2: "frame_row ?p st1 st2" by blast
  have w2: "ref_wide st2 nr (length B)"
    using frame_row_ref_wide [OF f2 w1] .
  from "3.IH"(2) [OF c m w2 "3.prems"(2,3) rr dr]
  obtain st3 where k: "update_ref_kids rs B ?p ks st2 = Some st3"
    and q3: "ref_post rs B ?Er {?p} st2 st3" by blast
  have "ref_post rs B (?Ec @ []) ({} \<union> {?p}) st st2"
    by (rule ref_post_comp [OF q1 frame_row_ref_post [OF f2]]) (use pc in simp)
  then have "ref_post rs B ((?Ec @ []) @ ?Er) (({} \<union> {?p}) \<union> {?p}) st st3"
    by (rule ref_post_comp [OF _ q3]) (use pc cr in auto)
  then have "ref_post rs B (edgesRecur_kids ((a2, child) # ks)) {?p} st st3" by simp
  moreover have "update_ref_kids rs B ?p ((a2, child) # ks) st = Some st3"
    using c m k by simp
  ultimately show ?case by blast
qed

lemma root_boot_post:
  "dp_wide st (length edges) nb \<Longrightarrow>
   (\<forall>j\<in>set (ids bs (edgesRecur_kids ks)). 0 \<le> j \<and> j < int nb) \<Longrightarrow>
   distinct (ids bs (edgesRecur_kids ks)) \<Longrightarrow>
   \<exists>st'. forM ks (\<lambda>(a, child). update_i_c_post_order_boot_tree rs ntips edges bs a child) st = Some st'
     \<and> boot_post rs ntips edges (set (ids bs (edgesRecur_kids ks))) {}
          (set (ids bs (filter right_tip (edgesRecur_kids ks)))) st st'"
proof (induction ks arbitrary: st)
  case Nil
  have "boot_post rs ntips edges {} {} {} st st"
    by (rule boot_postI) (simp_all add: dp_same_dims_def)
  then show ?case by simp
next
  case (Cons k ks)
  obtain a child where k: "k = (a, child)" by (cases k)
  let ?Jc = "set (ids bs ((a, child) # edgesRecur child))"
  let ?Tc = "set (ids bs (filter right_tip ((a, child) # edgesRecur child)))"
  let ?Jr = "set (ids bs (edgesRecur_kids ks))"
  let ?Tr = "set (ids bs (filter right_tip (edgesRecur_kids ks)))"
  from Cons.prems have rc: "\<forall>j\<in>?Jc. 0 \<le> j \<and> j < int nb" and dc: "distinct (ids bs ((a, child) # edgesRecur child))"
    and rr: "\<forall>j\<in>?Jr. 0 \<le> j \<and> j < int nb" and dr: "distinct (ids bs (edgesRecur_kids ks))"
    and cr: "?Jc \<inter> ?Jr = {}"
    unfolding k by auto
  from update_boot_post(1) [OF Cons.prems(1) rc dc, of rs ntips]
  obtain st1 where c: "update_i_c_post_order_boot_tree rs ntips edges bs a child st = Some st1"
    and p1: "boot_post rs ntips edges ?Jc {} ?Tc st st1" by blast
  have w1: "dp_wide st1 (length edges) nb"
    using dp_wide_same_dims [OF boot_postD(1) [OF p1] Cons.prems(1)] .
  from Cons.IH [OF w1 rr dr]
  obtain st2 where r: "forM ks (\<lambda>(a, child). update_i_c_post_order_boot_tree rs ntips edges bs a child) st1 = Some st2"
    and p2: "boot_post rs ntips edges ?Jr {} ?Tr st1 st2" by blast
  have pp: "boot_post rs ntips edges (?Jc \<union> ?Jr) ({} \<union> {}) (?Tc \<union> ?Tr) st st2"
    by (rule boot_post_comp [OF p1 p2]) (use cr in auto)
  have eqs: "?Jc \<union> ?Jr = set (ids bs (edgesRecur_kids ((a, child) # ks)))"
    "({} :: int set) \<union> {} = {}"
    "?Tc \<union> ?Tr = set (ids bs (filter right_tip (edgesRecur_kids ((a, child) # ks))))"
    by auto
  have "forM (k # ks) (\<lambda>(a, child). update_i_c_post_order_boot_tree rs ntips edges bs a child) st = Some st2"
    using c r by (simp add: k)
  with pp [unfolded eqs] show ?case unfolding k by blast
qed

lemma root_ref_post:
  "ref_wide st nr (length B) \<Longrightarrow>
   (\<forall>j\<in>set (ids rs (edgesRecur_kids ks)). 0 \<le> j \<and> j < int nr) \<Longrightarrow>
   distinct (ids rs (edgesRecur_kids ks)) \<Longrightarrow>
   \<exists>st'. forM ks (\<lambda>(a, child). update_i_c_post_order_ref_tree rs B a child) st = Some st'
     \<and> ref_post rs B (edgesRecur_kids ks) {} st st'"
proof (induction ks arbitrary: st)
  case Nil
  have "ref_post rs B [] {} st st"
    by (rule ref_postI) simp_all
  then show ?case by simp
next
  case (Cons k ks)
  obtain a child where k: "k = (a, child)" by (cases k)
  let ?Ec = "(a, child) # edgesRecur child"
  let ?Er = "edgesRecur_kids ks"
  from Cons.prems have rc: "\<forall>j\<in>set (ids rs ?Ec). 0 \<le> j \<and> j < int nr" and dc: "distinct (ids rs ?Ec)"
    and rr: "\<forall>j\<in>set (ids rs ?Er). 0 \<le> j \<and> j < int nr" and dr: "distinct (ids rs ?Er)"
    and cr: "set (ids rs ?Ec) \<inter> set (ids rs ?Er) = {}"
    unfolding k by auto
  from update_ref_post(1) [OF Cons.prems(1) rc dc]
  obtain st1 where c: "update_i_c_post_order_ref_tree rs B a child st = Some st1"
    and p1: "ref_post rs B ?Ec {} st st1" by blast
  have w1: "ref_wide st1 nr (length B)"
    using ref_post_ref_wide [OF p1 Cons.prems(1)] .
  from Cons.IH [OF w1 rr dr]
  obtain st2 where r: "forM ks (\<lambda>(a, child). update_i_c_post_order_ref_tree rs B a child) st1 = Some st2"
    and p2: "ref_post rs B ?Er {} st1 st2" by blast
  have pp: "ref_post rs B (?Ec @ ?Er) ({} \<union> {}) st st2"
    by (rule ref_post_comp [OF p1 p2]) (use cr in auto)
  have "forM (k # ks) (\<lambda>(a, child). update_i_c_post_order_ref_tree rs B a child) st = Some st2"
    using c r by (simp add: k)
  with pp show ?case unfolding k by auto
qed

lemma check_min_dist_total:
  "(\<forall>e\<in>set es. 0 \<le> id_e (rs (fst e)) \<and> nat (id_e (rs (fst e))) < length md) \<Longrightarrow>
     \<exists>er. check_min_dist rs es md = Some er"
  by (induction es) (auto simp: Let_def)

lemma check_min_dist_ok:
  "(\<forall>e\<in>set es. 0 \<le> id_e (rs (fst e)) \<and> nat (id_e (rs (fst e))) < length md
       \<and> (right_tip e \<longrightarrow> md ! nat (id_e (rs (fst e))) = 0)) \<Longrightarrow>
     check_min_dist rs es md = Some None"
  by (induction es) (auto simp: Let_def)

lemma check_min_dist_None:
  "check_min_dist rs es md = Some None \<Longrightarrow>
     \<forall>e\<in>set es. right_tip e \<longrightarrow> md ! nat (id_e (rs (fst e))) = 0"
  by (induction es) (auto simp: Let_def split: if_splits)

lemma uint_small: "0 \<le> k \<Longrightarrow> k < 65536 \<Longrightarrow> uint (word_of_int k :: 16 word) = k"
  by (simp add: uint_word_of_int)

lemma h_eq: "word_of_int t + c - i = (word_of_int (exact_hamming t c i) :: 16 word)"
  by (simp add: exact_hamming_def)

lemma hamming_value_exact:
  assumes n: "ntips < 65536" and H: "0 \<le> exact_hamming t c i" "exact_hamming t c i \<le> int ntips"
  shows "uint (hamming_value ntips t c i)
     = min (exact_hamming t c i) (int ntips - exact_hamming t c i)"
proof -
  define H where "H = exact_hamming t c i"
  have H': "0 \<le> H" "H \<le> int ntips" "H < 65536" using H n by (simp_all add: H_def)
  have uH: "uint (word_of_int H :: 16 word) = H"
    using H' by (simp add: uint_small)
  have wn: "(word_of_nat ntips :: 16 word) = word_of_int (int ntips)" by simp
  have un: "uint (word_of_nat ntips :: 16 word) = int ntips"
    using uint_small [of "int ntips"] n by simp
  have u2: "uint (word_of_nat ntips div 2 :: 16 word) = int ntips div 2"
    unfolding uint_div un by simp
  have lt: "(word_of_int H :: 16 word) > word_of_nat ntips div 2 \<longleftrightarrow> H > int ntips div 2"
    unfolding word_less_def u2 uH ..
  have "(word_of_nat ntips - word_of_int H :: 16 word) = word_of_int (int ntips - H)"
    by simp
  moreover have "uint (word_of_int (int ntips - H) :: 16 word) = int ntips - H"
    using H' n by (intro uint_small) simp_all
  ultimately have sub: "uint (word_of_nat ntips - word_of_int H :: 16 word) = int ntips - H"
    by (simp only:)
  show ?thesis
    unfolding hamming_value_def Let_def h_eq H_def [symmetric]
    using uH sub lt H' by (auto simp: min_def)
qed

lemma hamming_value_tip_match: "hamming_value ntips 1 0 1 = 0"
  by (simp add: hamming_value_def)

lemma wide_code [code]:
  "wide m n nb = (n \<le> length m \<and> list_all (\<lambda>r. nb \<le> length r) (take n m))"
  by (auto simp: wide_def list_all_length)

lemma ids_positions:
  assumes "ids rs es = map int [0..<length es]"
  shows "\<forall>j\<in>set (ids rs es). 0 \<le> j \<and> j < int (length es)" "distinct (ids rs es)"
    "\<And>p. p < length es \<Longrightarrow> id_e (rs (fst (es ! p))) = int p"
proof -
  show "\<forall>j\<in>set (ids rs es). 0 \<le> j \<and> j < int (length es)" unfolding assms by auto
  show "distinct (ids rs es)" unfolding assms by (simp add: distinct_map inj_on_def)
  fix p assume p: "p < length es"
  have "ids rs es ! p = id_e (rs (fst (es ! p)))" using p by (simp add: ids_def)
  moreover have "ids rs es ! p = int p" unfolding assms using p by simp
  ultimately show "id_e (rs (fst (es ! p))) = int p" by simp
qed

lemma both_passes_tip_edges:
  assumes rroot: "root_t refTree = Some rr" and broot: "root_t bootTree = Some rb"
    and rids: "ids (est refTree) (edgesRecur rr) = map int [0..<length (edgesRecur rr)]"
    and bids: "ids (est bootTree) (edgesRecur rb) = map int [0..<length (edgesRecur rb)]"
    and one: "\<forall>e\<in>set (edgesRecur rr). right_tip e \<longrightarrow> fst (NumTipsRight (est refTree (fst e))) = 1"
    and names: "(\<lambda>e. name (snd e)) ` {e \<in> set (edgesRecur rr). right_tip e}
                 \<subseteq> (\<lambda>e. name (snd e)) ` {e \<in> set (edgesRecur rb). right_tip e}"
    and wide: "dp_wide st (length (edgesRecur rr)) (length (edgesRecur rb))"
  shows "\<exists>st1 st2. Update_all_i_c_post_order_ref_tree refTree (edgesRecur rb) st = Some st1
     \<and> Update_all_i_c_post_order_boot_tree (est refTree) ntips (edgesRecur rr) bootTree st1
         = Some (st2, None)
     \<and> (\<forall>e\<in>set (edgesRecur rr). right_tip e \<longrightarrow>
           min_dist st2 ! nat (id_e (est refTree (fst e))) = 0
         \<and> (\<exists>b\<in>set (edgesRecur rb).
               rd (hamming st2) (id_e (est refTree (fst e))) (id_e (est bootTree (fst b))) = 0))"
proof -
  let ?rs = "est refTree" and ?bs = "est bootTree"
  let ?E = "edgesRecur rr" and ?B = "edgesRecur rb"
  obtain rn rks where rr: "rr = Node rn rks" by (cases rr)
  obtain bn bks where rb: "rb = Node bn bks" by (cases rb)
  have E: "?E = edgesRecur_kids rks" and B: "?B = edgesRecur_kids bks" by (simp_all add: rr rb)
  note rp = ids_positions [OF rids] and bp = ids_positions [OF bids]
  have rw: "ref_wide st (length ?E) (length ?B)" using wide by (simp add: dp_wide_def ref_wide_def)
  from root_ref_post [OF rw [unfolded E] rp(1) [unfolded E] rp(2) [unfolded E]]
  obtain st1 where r1: "forM rks (\<lambda>(a, child). update_i_c_post_order_ref_tree ?rs ?B a child) st = Some st1"
    and p1: "ref_post ?rs ?B ?E {} st st1"
    unfolding E B by blast
  have run1: "Update_all_i_c_post_order_ref_tree refTree ?B st = Some st1"
    using r1 by (simp add: Update_all_i_c_post_order_ref_tree_def rroot rr)
  have d1: "dp_same_dims st st1"
    using ref_postD(1-5) [OF p1] by (simp add: dp_same_dims_def)
  have w1: "dp_wide st1 (length ?E) (length ?B)" by (rule dp_wide_same_dims [OF d1 wide])
  from root_boot_post [OF w1 [unfolded B] bp(1) [unfolded B] bp(2) [unfolded B], of ?rs ntips]
  obtain st2 where r2: "forM bks (\<lambda>(a, child).
        update_i_c_post_order_boot_tree ?rs ntips ?E ?bs a child) st1 = Some st2"
    and p2: "boot_post ?rs ntips ?E (set (ids ?bs ?B)) {} (set (ids ?bs (filter right_tip ?B))) st1 st2"
    unfolding E B by blast
  have w2: "dp_wide st2 (length ?E) (length ?B)"
    by (rule dp_wide_same_dims [OF boot_postD(1) [OF p2] w1])
  have tip: "min_dist st2 ! nat (id_e (?rs (fst e))) = 0
      \<and> (\<exists>b\<in>set ?B. rd (hamming st2) (id_e (?rs (fst e))) (id_e (?bs (fst b))) = 0)"
    if e: "e \<in> set ?E" and t: "right_tip e" for e
  proof -
    from e obtain p where p: "p < length ?E" and ep: "?E ! p = e" by (auto simp: in_set_conv_nth)
    have idp: "id_e (?rs (fst e)) = int p" using rp(3) [OF p] ep by simp
    from names e t obtain b where b: "b \<in> set ?B" and bt: "right_tip b"
      and nm: "name (snd e) = name (snd b)" by auto
    from b obtain k where k: "k < length ?B" and bk: "?B ! k = b" by (auto simp: in_set_conv_nth)
    have idk: "id_e (?bs (fst b)) = int k" using bp(3) [OF k] bk by simp
    have kJ: "int k \<in> set (ids ?bs ?B)" using b idk by (force simp: ids_def)
    have kT: "int k \<in> set (ids ?bs (filter right_tip ?B))" using b bt idk by (force simp: ids_def)
    from ref_postD(8) [OF p1 e t k] bt bk nm idp
    have ic1: "rd (i_matrix st1) (int p) (int k) = 1" "rd (c_matrix st1) (int p) (int k) = 0"
      by simp_all
    have "int k \<notin> (set (ids ?bs ?B) - set (ids ?bs (filter right_tip ?B))) \<union> {}" using kT by simp
    from boot_postD(5) [OF p2 _ _ this, of "int p"] ic1
    have ic2: "rd (i_matrix st2) (int p) (int k) = 1" "rd (c_matrix st2) (int p) (int k) = 0"
      by simp_all
    have nt: "fst (NumTipsRight (?rs (fst (?E ! p)))) = 1" using one e t ep by simp
    have h: "rd (hamming st2) (int p) (int k) = 0"
      using boot_postD(6) [OF p2 p kJ] ic2 nt by (simp add: hval_def hamming_value_tip_match)
    from boot_postD(7) [OF p2 p] kJ have "min_dist st2 ! p \<le> rd (hamming st2) (int p) (int k)"
      by blast
    then have m: "min_dist st2 ! nat (id_e (?rs (fst e))) = 0" unfolding h idp by simp
    have "rd (hamming st2) (id_e (?rs (fst e))) (id_e (?bs (fst b))) = 0"
      using h idp idk by simp
    with m b show ?thesis by blast
  qed
  have len: "length ?E \<le> length (min_dist st2)" using w2 by (simp add: dp_wide_def)
  have "check_min_dist ?rs ?E (min_dist st2) = Some None"
  proof (rule check_min_dist_ok, intro ballI conjI impI)
    fix e assume e: "e \<in> set ?E"
    from e obtain p where p: "p < length ?E" and ep: "?E ! p = e" by (auto simp: in_set_conv_nth)
    have idp: "id_e (?rs (fst e)) = int p" using rp(3) [OF p] ep by simp
    show "0 \<le> id_e (?rs (fst e))" by (simp add: idp)
    show "nat (id_e (?rs (fst e))) < length (min_dist st2)" using p len by (simp add: idp)
    assume "right_tip e"
    then show "min_dist st2 ! nat (id_e (?rs (fst e))) = 0" using tip [OF e] by blast
  qed
  with r2 have run2: "Update_all_i_c_post_order_boot_tree ?rs ntips ?E bootTree st1 = Some (st2, None)"
    by (simp add: Update_all_i_c_post_order_boot_tree_def broot rb)
  from run1 run2 tip show ?thesis by blast
qed

lemma boot_pass_nonzero_tip_error:
  assumes "Update_all_i_c_post_order_boot_tree rs ntips edges bootTree st = Some (st', er)"
    and "e \<in> set edges" "right_tip e" "min_dist st' ! nat (id_e (rs (fst e))) \<noteq> 0"
  shows "\<exists>d. d \<noteq> 0 \<and> er = Some (ErrTerminalEdge d)"
proof -
  from assms(1) have c: "check_min_dist rs edges (min_dist st') = Some er"
    by (auto simp: Update_all_i_c_post_order_boot_tree_def split: option.splits)
  show ?thesis
  proof (cases er)
    case None
    with c check_min_dist_None [of rs edges "min_dist st'"] assms(2-4) show ?thesis by blast
  next
    case (Some x)
    with c check_min_dist_error [of rs edges "min_dist st'" x] show ?thesis by auto
  qed
qed

lemma upd_bits_id [simp]: "upd_bits (\<lambda>b. b) e = e"
  by (simp add: upd_bits_def option.map_ident)

lemma upd_bits_comp [simp]: "upd_bits f (upd_bits g e) = upd_bits (\<lambda>b. f (g b)) e"
  by (simp add: upd_bits_def option.map_comp comp_def)

lemma bitset_e_upd_bits [simp]: "bitset_e (upd_bits f e) = map_option f (bitset_e e)"
  by (simp add: upd_bits_def)

lemma bitset_Set_idem [simp]: "bitset_Set i (bitset_Set i b) = bitset_Set i b"
  by (simp add: bitset_Set_def)

lemma set_bit_of_upd:
  "bitset_e (s x) \<noteq> None \<Longrightarrow> set_bit_of i x s = Some (s(x := upd_bits (bitset_Set i) (s x)))"
  by (auto simp: set_bit_of_def upd_bits_def)

lemma forM_set_bit_of:
  "allocated s (set R) \<Longrightarrow>
   forM R (set_bit_of i) s
     = Some (\<lambda>x. if x \<in> set R then upd_bits (bitset_Set i) (s x) else s x)"
proof (induction R arbitrary: s)
  case Nil
  show ?case by simp
next
  case (Cons y R)
  let ?s1 = "s(y := upd_bits (bitset_Set i) (s y))"
  from Cons.prems have y: "bitset_e (s y) \<noteq> None" by (simp add: allocated_def)
  have a1: "allocated ?s1 (set R)" using Cons.prems by (auto simp: allocated_def)
  have "forM (y # R) (set_bit_of i) s = forM R (set_bit_of i) ?s1"
    using set_bit_of_upd [of s y i] y by simp
  also have "\<dots> = Some (\<lambda>x. if x \<in> set R then upd_bits (bitset_Set i) (?s1 x) else ?s1 x)"
    by (rule Cons.IH [OF a1])
  also have "(\<lambda>x. if x \<in> set R then upd_bits (bitset_Set i) (?s1 x) else ?s1 x)
      = (\<lambda>x. if x \<in> set (y # R) then upd_bits (bitset_Set i) (s x) else s x)"
    by (rule ext) simp
  finally show ?case .
qed

lemma allocated_mono: "allocated s A \<Longrightarrow> B \<subseteq> A \<Longrightarrow> allocated s B"
  by (auto simp: allocated_def)

lemma fill_post_allocated:
  "fill_post ix R Cl Es ords s s' \<Longrightarrow> allocated s A \<Longrightarrow> allocated s' A"
  unfolding fill_post_def allocated_def
proof (intro ballI)
  fix x assume p: "(\<forall>x. x \<notin> R \<union> fst ` set Es \<longrightarrow> s' x = s x)
      \<and> (\<forall>x\<in>R. s' x = upd_bits (\<lambda>b. fold bitset_Set ords (if x \<in> Cl then ClearAll b else b)) (s x))
      \<and> (\<forall>e\<in>set Es. s' (fst e)
            = upd_bits (\<lambda>b. fold bitset_Set (tip_ords ix (snd e)) (ClearAll b)) (s (fst e)))"
    and a: "\<forall>x\<in>A. bitset_e (s x) \<noteq> None" and x: "x \<in> A"
  from a x have sx: "bitset_e (s x) \<noteq> None" by blast
  consider "x \<in> R" | "x \<in> fst ` set Es" | "x \<notin> R \<union> fst ` set Es" by blast
  then show "bitset_e (s' x) \<noteq> None"
  proof cases
    case 1
    with p have "s' x = upd_bits (\<lambda>b. fold bitset_Set ords (if x \<in> Cl then ClearAll b else b)) (s x)"
      by blast
    with sx show ?thesis by simp
  next
    case 2
    then obtain e where "e \<in> set Es" "x = fst e" by blast
    with p have "s' x = upd_bits (\<lambda>b. fold bitset_Set (tip_ords ix (snd e)) (ClearAll b)) (s x)"
      by blast
    with sx show ?thesis by simp
  next
    case 3
    with p have "s' x = s x" by blast
    with sx show ?thesis by simp
  qed
qed

lemma fill_main:
  shows "a \<in> set R \<Longrightarrow> allocated s (set R \<union> fst ` set (edgesRecur n)) \<Longrightarrow>
         distinct (map fst (edgesRecur n)) \<Longrightarrow> set R \<inter> fst ` set (edgesRecur n) = {} \<Longrightarrow>
         set (allTipNamesRecur False n) \<subseteq> dom (map_of ix) \<Longrightarrow>
         \<exists>s'. fillRightBitSet ix a n R s = Some (s', None)
           \<and> fill_post ix (set R) {a} (edgesRecur n) (tip_ords ix n) s s'"
    and "allocated s (set R \<union> fst ` set (edgesRecur_kids ks)) \<Longrightarrow>
         distinct (map fst (edgesRecur_kids ks)) \<Longrightarrow> set R \<inter> fst ` set (edgesRecur_kids ks) = {} \<Longrightarrow>
         set (allTipNamesRecur_kids ks) \<subseteq> dom (map_of ix) \<Longrightarrow>
         \<exists>s'. fillRightBitSet_kids ix ks R s = Some (s', None)
           \<and> fill_post ix (set R) {} (edgesRecur_kids ks) (tip_ords_kids ix ks) s s'"
proof (induction ix a n R s and ix ks R s rule: fillRightBitSet_fillRightBitSet_kids.induct)
  case (1 ix a nm ks R s)
  from "1.prems"(1,2) obtain b where b: "bitset_e (s a) = Some b" by (auto simp: allocated_def)
  let ?s1 = "s(a := (s a)\<lparr>bitset_e := Some (ClearAll b)\<rparr>)"
  have s1: "?s1 = s(a := upd_bits ClearAll (s a))" by (simp add: upd_bits_def b)
  show ?case
  proof (cases "ks = []")
    case True
    from "1.prems"(5) True obtain i where i: "map_of ix nm = Some i" by auto
    have ti: "tipIndexNode ix False (Node nm ks) = Inr i"
      using i True by (auto simp: tipIndexNode_def TipIndex_def Nneigh_def)
    have al: "allocated ?s1 (set R)" using "1.prems"(2) by (auto simp: allocated_def)
    let ?s2 = "\<lambda>x. if x \<in> set R then upd_bits (bitset_Set i) (?s1 x) else ?s1 x"
    have run: "fillRightBitSet ix a (Node nm ks) R s = Some (?s2, None)"
      using b ti True forM_set_bit_of [OF al, of i] by (simp add: Nneigh_def Let_def)
    have "fill_post ix (set R) {a} (edgesRecur (Node nm ks)) (tip_ords ix (Node nm ks)) s ?s2"
      using "1.prems"(1) True i unfolding s1 by (auto simp: fill_post_def)
    with run show ?thesis by blast
  next
    case False
    then have nt: "Nneigh False (Node nm ks) \<noteq> 1" by (simp add: Nneigh_def)
    have al: "allocated ?s1 (set R \<union> fst ` set (edgesRecur_kids ks))"
      using "1.prems"(2) by (auto simp: allocated_def)
    have tn: "set (allTipNamesRecur_kids ks) \<subseteq> dom (map_of ix)"
      using "1.prems"(5) False by simp
    have dk: "distinct (map fst (edgesRecur_kids ks))" using "1.prems"(3) by simp
    have Rk: "set R \<inter> fst ` set (edgesRecur_kids ks) = {}" using "1.prems"(4) by simp
    from "1.IH" [OF b refl nt al dk Rk tn]
    obtain s' where k: "fillRightBitSet_kids ix ks R ?s1 = Some (s', None)"
      and p: "fill_post ix (set R) {} (edgesRecur_kids ks) (tip_ords_kids ix ks) ?s1 s'"
      by blast
    have run: "fillRightBitSet ix a (Node nm ks) R s = Some (s', None)"
      using b nt k by (simp add: Let_def)
    have an: "a \<notin> fst ` set (edgesRecur_kids ks)" using "1.prems"(1,4) by auto
    have "fill_post ix (set R) {a} (edgesRecur (Node nm ks)) (tip_ords ix (Node nm ks)) s s'"
      using p "1.prems"(1) an False unfolding s1 fill_post_def
      by (auto simp: fun_upd_def)
    with run show ?thesis by blast
  qed
next
  case (2 ix R s)
  show ?case by (simp add: fill_post_def)
next
  case (3 ix a2 child ks R s)
  let ?Ec = "edgesRecur child" and ?Ek = "edgesRecur_kids ks"
  from "3.prems" have a2R: "a2 \<notin> set R" and a2c: "a2 \<notin> fst ` set ?Ec" and a2k: "a2 \<notin> fst ` set ?Ek"
    and dc: "distinct (map fst ?Ec)" and dk: "distinct (map fst ?Ek)"
    and ck: "fst ` set ?Ec \<inter> fst ` set ?Ek = {}"
    and Rc: "set R \<inter> fst ` set ?Ec = {}" and Rk: "set R \<inter> fst ` set ?Ek = {}"
    and tc: "set (allTipNamesRecur False child) \<subseteq> dom (map_of ix)"
    and tk: "set (allTipNamesRecur_kids ks) \<subseteq> dom (map_of ix)"
    by auto
  have al1: "allocated s (set (R @ [a2]) \<union> fst ` set ?Ec)"
    using "3.prems"(1) by (auto simp: allocated_def)
  have d1: "set (R @ [a2]) \<inter> fst ` set ?Ec = {}" using Rc a2c by auto
  from "3.IH"(1) [OF _ al1 dc d1 tc]
  obtain s1 where c: "fillRightBitSet ix a2 child (R @ [a2]) s = Some (s1, None)"
    and p1: "fill_post ix (set (R @ [a2])) {a2} ?Ec (tip_ords ix child) s s1"
    by auto
  have al2: "allocated s1 (set R \<union> fst ` set ?Ek)"
    by (rule fill_post_allocated [OF p1]) (use "3.prems"(1) in \<open>auto simp: allocated_def\<close>)
  from "3.IH"(2) [OF c refl refl al2 dk Rk tk]
  obtain s2 where k: "fillRightBitSet_kids ix ks R s1 = Some (s2, None)"
    and p2: "fill_post ix (set R) {} ?Ek (tip_ords_kids ix ks) s1 s2"
    by auto
  have run: "fillRightBitSet_kids ix ((a2, child) # ks) R s = Some (s2, None)"
    using c k by simp
  have "fill_post ix (set R) {} (edgesRecur_kids ((a2, child) # ks))
          (tip_ords_kids ix ((a2, child) # ks)) s s2"
    unfolding fill_post_def
  proof (intro conjI allI ballI impI)
    fix x assume "x \<notin> set R \<union> fst ` set (edgesRecur_kids ((a2, child) # ks))"
    then have x: "x \<notin> set R" "x \<noteq> a2" "x \<notin> fst ` set ?Ec" "x \<notin> fst ` set ?Ek" by auto
    then have "s2 x = s1 x" using p2 by (simp add: fill_post_def)
    also have "\<dots> = s x" using p1 x by (simp add: fill_post_def)
    finally show "s2 x = s x" .
  next
    fix x assume x: "x \<in> set R"
    then have xa: "x \<noteq> a2" using a2R by auto
    have "s2 x = upd_bits (\<lambda>b. fold bitset_Set (tip_ords_kids ix ks) b) (s1 x)"
      using p2 x by (simp add: fill_post_def)
    also have "s1 x = upd_bits (\<lambda>b. fold bitset_Set (tip_ords ix child) b) (s x)"
      using p1 x xa by (simp add: fill_post_def)
    finally show "s2 x = upd_bits (\<lambda>b. fold bitset_Set (tip_ords_kids ix ((a2, child) # ks))
        (if x \<in> {} then ClearAll b else b)) (s x)"
      by simp
  next
    fix e assume "e \<in> set (edgesRecur_kids ((a2, child) # ks))"
    then consider "e = (a2, child)" | "e \<in> set ?Ec" | "e \<in> set ?Ek" by auto
    then show "s2 (fst e) = upd_bits (\<lambda>b. fold bitset_Set (tip_ords ix (snd e)) (ClearAll b)) (s (fst e))"
    proof cases
      case 1
      have "s2 a2 = s1 a2" using p2 a2R a2k by (simp add: fill_post_def)
      also have "\<dots> = upd_bits (\<lambda>b. fold bitset_Set (tip_ords ix child) (ClearAll b)) (s a2)"
        using p1 by (simp add: fill_post_def)
      finally show ?thesis using 1 by simp
    next
      case 2
      then have f: "fst e \<in> fst ` set ?Ec" by blast
      then have "fst e \<notin> set R \<union> fst ` set ?Ek" using Rc ck by blast
      then have "s2 (fst e) = s1 (fst e)" using p2 by (simp add: fill_post_def)
      also have "\<dots> = upd_bits (\<lambda>b. fold bitset_Set (tip_ords ix (snd e)) (ClearAll b)) (s (fst e))"
        using p1 2 by (simp add: fill_post_def)
      finally show ?thesis .
    next
      case 3
      then have f: "fst e \<in> fst ` set ?Ek" by blast
      then have "fst e \<notin> set (R @ [a2]) \<union> fst ` set ?Ec" using Rk ck a2k by auto
      then have "s1 (fst e) = s (fst e)" using p1 by (simp add: fill_post_def)
      moreover have "s2 (fst e) = upd_bits (\<lambda>b. fold bitset_Set (tip_ords ix (snd e)) (ClearAll b)) (s1 (fst e))"
        using p2 3 by (simp add: fill_post_def)
      ultimately show ?thesis by simp
    qed
  qed
  with run show ?case by blast
qed

lemma filled_allocated: "filled ix Es s s' \<Longrightarrow> allocated s A \<Longrightarrow> allocated s' A"
  using fill_post_allocated [of ix "{}" "{}" Es "[]" s s' A]
  by (simp add: filled_def fill_post_def)

lemma UpdateBitSet_edges_filled:
  "allocated s (fst ` set (edgesRecur_kids ks)) \<Longrightarrow> distinct (map fst (edgesRecur_kids ks)) \<Longrightarrow>
   set (allTipNamesRecur_kids ks) \<subseteq> dom (map_of ix) \<Longrightarrow>
   \<exists>s'. UpdateBitSet_edges ix ks s = Some (s', None) \<and> filled ix (edgesRecur_kids ks) s s'"
proof (induction ks arbitrary: s)
  case Nil
  show ?case by (simp add: filled_def)
next
  case (Cons k ks)
  obtain a child where k: "k = (a, child)" by (cases k)
  let ?Ec = "edgesRecur child" and ?Ek = "edgesRecur_kids ks"
  from Cons.prems have ac: "a \<notin> fst ` set ?Ec" and ak: "a \<notin> fst ` set ?Ek"
    and dc: "distinct (map fst ?Ec)" and dk: "distinct (map fst ?Ek)"
    and ck: "fst ` set ?Ec \<inter> fst ` set ?Ek = {}"
    and tc: "set (allTipNamesRecur False child) \<subseteq> dom (map_of ix)"
    and tk: "set (allTipNamesRecur_kids ks) \<subseteq> dom (map_of ix)"
    unfolding k by auto
  have al1: "allocated s (set [a] \<union> fst ` set ?Ec)"
    using Cons.prems(1) unfolding k by (auto simp: allocated_def)
  have d1: "set [a] \<inter> fst ` set ?Ec = {}" using ac by simp
  from fill_main(1) [OF _ al1 dc d1 tc, of a]
  obtain s1 where c: "fillRightBitSet ix a child [a] s = Some (s1, None)"
    and p1: "fill_post ix (set [a]) {a} ?Ec (tip_ords ix child) s s1"
    by auto
  have al2: "allocated s1 (fst ` set ?Ek)"
    by (rule fill_post_allocated [OF p1]) (use Cons.prems(1) in \<open>auto simp: allocated_def k\<close>)
  from Cons.IH [OF al2 dk tk]
  obtain s2 where r: "UpdateBitSet_edges ix ks s1 = Some (s2, None)"
    and p2: "filled ix ?Ek s1 s2" by blast
  have run: "UpdateBitSet_edges ix (k # ks) s = Some (s2, None)" using c r by (simp add: k)
  have "filled ix (edgesRecur_kids ((a, child) # ks)) s s2"
    unfolding filled_def
  proof (intro conjI allI ballI impI)
    fix x assume "x \<notin> fst ` set (edgesRecur_kids ((a, child) # ks))"
    then have x: "x \<noteq> a" "x \<notin> fst ` set ?Ec" "x \<notin> fst ` set ?Ek" by auto
    then have "s2 x = s1 x" using p2 by (simp add: filled_def)
    also have "\<dots> = s x" using p1 x by (simp add: fill_post_def)
    finally show "s2 x = s x" .
  next
    fix e assume "e \<in> set (edgesRecur_kids ((a, child) # ks))"
    then consider "e = (a, child)" | "e \<in> set ?Ec" | "e \<in> set ?Ek" by auto
    then show "s2 (fst e) = upd_bits (\<lambda>b. fold bitset_Set (tip_ords ix (snd e)) (ClearAll b)) (s (fst e))"
    proof cases
      case 1
      have "s2 a = s1 a" using p2 ak by (simp add: filled_def)
      also have "\<dots> = upd_bits (\<lambda>b. fold bitset_Set (tip_ords ix child) (ClearAll b)) (s a)"
        using p1 by (simp add: fill_post_def)
      finally show ?thesis using 1 by simp
    next
      case 2
      then have f: "fst e \<in> fst ` set ?Ec" by blast
      then have "fst e \<notin> fst ` set ?Ek" using ck by blast
      then have "s2 (fst e) = s1 (fst e)" using p2 by (simp add: filled_def)
      also have "\<dots> = upd_bits (\<lambda>b. fold bitset_Set (tip_ords ix (snd e)) (ClearAll b)) (s (fst e))"
        using p1 2 by (simp add: fill_post_def)
      finally show ?thesis .
    next
      case 3
      then have f: "fst e \<in> fst ` set ?Ek" by blast
      then have "fst e \<notin> set [a] \<union> fst ` set ?Ec" using ck ak by auto
      then have "s1 (fst e) = s (fst e)" using p1 by (simp add: fill_post_def)
      moreover have "s2 (fst e) = upd_bits (\<lambda>b. fold bitset_Set (tip_ords ix (snd e)) (ClearAll b)) (s1 (fst e))"
        using p2 3 by (simp add: filled_def)
      ultimately show ?thesis by simp
    qed
  qed
  with run show ?case unfolding k by blast
qed

lemma bits_fold_Set [simp]: "bits (fold bitset_Set xs b) = set xs \<union> bits b"
  by (induction xs arbitrary: b) (auto simp: bitset_Set_def)

lemma blen_fold_Set_mono: "blen b \<le> blen (fold bitset_Set xs b)"
proof (induction xs arbitrary: b)
  case Nil
  show ?case by simp
next
  case (Cons x xs)
  have "blen b \<le> blen (bitset_Set x b)" by (simp add: bitset_Set_def)
  also have "\<dots> \<le> blen (fold bitset_Set xs (bitset_Set x b))" by (rule Cons.IH)
  finally show ?case by simp
qed

lemma blen_fold_Set_above: "x \<in> set xs \<Longrightarrow> x < blen (fold bitset_Set xs b)"
proof (induction xs arbitrary: b)
  case Nil
  then show ?case by simp
next
  case (Cons y xs)
  show ?case
  proof (cases "x = y")
    case True
    have "x < blen (bitset_Set y b)" using True by (simp add: bitset_Set_def)
    also have "\<dots> \<le> blen (fold bitset_Set xs (bitset_Set y b))" by (rule blen_fold_Set_mono)
    finally show ?thesis by simp
  next
    case False
    with Cons.prems have "x \<in> set xs" by simp
    from Cons.IH [OF this] show ?thesis by simp
  qed
qed

lemma blen_fold_Set_below: "\<forall>x\<in>set xs. x < blen b \<Longrightarrow> blen (fold bitset_Set xs b) = blen b"
proof (induction xs arbitrary: b)
  case Nil
  show ?case by simp
next
  case (Cons y xs)
  from Cons.prems have e: "blen (bitset_Set y b) = blen b" by (simp add: bitset_Set_def max_def)
  with Cons.prems have "\<forall>x\<in>set xs. x < blen (bitset_Set y b)" by simp
  from Cons.IH [OF this] e show ?case by simp
qed

lemma fill_idem:
  "fold bitset_Set xs (ClearAll (fold bitset_Set xs (ClearAll b))) = fold bitset_Set xs (ClearAll b)"
proof -
  let ?F = "\<lambda>b. fold bitset_Set xs (ClearAll b)"
  have "bits (?F (?F b)) = bits (?F b)" by (simp add: ClearAll_def)
  moreover have "blen (?F (?F b)) = blen (?F b)"
  proof -
    have "\<forall>x\<in>set xs. x < blen (ClearAll (?F b))"
      using blen_fold_Set_above [of _ xs "ClearAll b"] by (simp add: ClearAll_def)
    from blen_fold_Set_below [OF this] show ?thesis by (simp add: ClearAll_def)
  qed
  ultimately show ?thesis by (intro bitset.equality) simp_all
qed

lemma filled_idem:
  assumes "filled ix Es s s'" "filled ix Es s' s''"
  shows "s'' = s'"
proof (rule ext)
  fix x
  show "s'' x = s' x"
  proof (cases "x \<in> fst ` set Es")
    case False
    with assms(2) show ?thesis by (simp add: filled_def)
  next
    case True
    then obtain e where e: "e \<in> set Es" "x = fst e" by blast
    let ?F = "\<lambda>b. fold bitset_Set (tip_ords ix (snd e)) (ClearAll b)"
    have "s'' x = upd_bits ?F (s' x)" using assms(2) e by (simp add: filled_def)
    also have "s' x = upd_bits ?F (s x)" using assms(1) e by (simp add: filled_def)
    finally show ?thesis using \<open>s' x = upd_bits ?F (s x)\<close> by (simp add: fill_idem)
  qed
qed

lemma tip_ords_names:
  shows "set (allTipNamesRecur False n) \<subseteq> dom (map_of ix) \<Longrightarrow>
         map Some (tip_ords ix n) = map (map_of ix) (allTipNamesRecur False n)"
    and "set (allTipNamesRecur_kids ks) \<subseteq> dom (map_of ix) \<Longrightarrow>
         map Some (tip_ords_kids ix ks) = map (map_of ix) (allTipNamesRecur_kids ks)"
proof (induction ix n and ix ks rule: tip_ords_tip_ords_kids.induct)
  case (1 ix nm ks)
  then show ?case by (cases "ks = []") auto
next
  case (2 ix)
  show ?case by simp
next
  case (3 ix a c ks)
  then show ?case by simp
qed

lemma tip_ords_kids_subset:
  "k \<in> set ks \<Longrightarrow> set (tip_ords ix (snd k)) \<subseteq> set (tip_ords_kids ix ks)"
  by (induction ks) auto

lemma tip_ords_kids_Union:
  "(\<Union>k\<in>set ks. set (tip_ords ix (snd k))) = set (tip_ords_kids ix ks)"
  by (induction ks) auto

lemma tip_ords_kids_disjoint:
  "distinct (tip_ords_kids ix ks) \<Longrightarrow> i < j \<Longrightarrow> j < length ks \<Longrightarrow>
     set (tip_ords ix (snd (ks ! i))) \<inter> set (tip_ords ix (snd (ks ! j))) = {}"
proof (induction ks arbitrary: i j)
  case Nil
  then show ?case by simp
next
  case (Cons k ks)
  obtain a c where k: "k = (a, c)" by (cases k)
  from Cons.prems(2) obtain j' where j: "j = Suc j'" by (cases j) auto
  show ?case
  proof (cases i)
    case 0
    have "ks ! j' \<in> set ks" using Cons.prems(3) j by simp
    from tip_ords_kids_subset [OF this, of ix] Cons.prems(1) show ?thesis
      unfolding k 0 j by auto
  next
    case (Suc i')
    from Cons.prems have "distinct (tip_ords_kids ix ks)" "i' < j'" "j' < length ks"
      unfolding k Suc j by auto
    from Cons.IH [OF this] show ?thesis unfolding Suc j by simp
  qed
qed

lemma kids_in_edgesRecur_kids: "k \<in> set ks \<Longrightarrow> k \<in> set (edgesRecur_kids ks)"
  by (induction ks) auto

lemma filled_edge_bits:
  assumes "filled ix Es s s'" "allocated s (fst ` set Es)" "e \<in> set Es"
  shows "edge_bits (t\<lparr>est := s'\<rparr>) (fst e) = set (tip_ords ix (snd e))"
proof -
  from assms(2,3) obtain b where b: "bitset_e (s (fst e)) = Some b" by (auto simp: allocated_def)
  from assms(1,3) have "s' (fst e)
      = upd_bits (\<lambda>b. fold bitset_Set (tip_ords ix (snd e)) (ClearAll b)) (s (fst e))"
    by (simp add: filled_def)
  then show ?thesis by (simp add: edge_bits_def b ClearAll_def)
qed

lemma indexed_tree_AB_CD:
  "tipIndex (indexed_tree tree_AB_CD) = [(''A'', 0), (''B'', 1), (''C'', 2), (''D'', 3)]"
  "AllTipNames (indexed_tree tree_AB_CD) = Some [''A'', ''B'', ''C'', ''D'']"
  "root_t (indexed_tree tree_AB_CD) = Some tree_AB_CD"
  by code_simp+

subsection \<open>The claims\<close>

text \<open>
  C8 (amended). For every cutoff argument other than NaN that is outside \<open>[0,1]\<close>, every
  negative one and both infinities included, \<open>NewBoosterSupporter\<close> stores the cutoff
  1.0 (a negative cutoff becomes 1.0, not 0); for every argument inside \<open>[0,1]\<close> it
  stores the argument unchanged; NaN is stored unchanged.
\<close>

theorem C8_cutoff_clamped_to_one:
  "movedSpeciesCutoff (NewBoosterSupporter sil cms ctpb chtpb x nbe) =
     (if x = NaN then NaN
      else if f64_le (Zero False) x \<and> f64_le x (Num 1) then x
      else Num 1)"
  by (cases x) (auto simp: NewBoosterSupporter_def Let_def f64_lt_def f64_le_def)

text \<open>
  C8 as stated fails on NaN: it is not inside \<open>[0,1]\<close>, both guards of the constructor
  are false on it, and the cutoff stored is NaN, not 1.0.
\<close>

theorem C8_nan_counterexample:
  "\<not> (f64_le (Zero False) NaN \<and> f64_le NaN (Num 1))
   \<and> movedSpeciesCutoff (NewBoosterSupporter False False False False NaN False) = NaN
   \<and> NaN \<noteq> Num 1"
  by (simp add: NewBoosterSupporter_def Let_def f64_lt_def f64_le_def)

text \<open>
  C10. A tree made by \<open>NewTree\<close> has a nil root, and \<open>Rooted\<close>, \<open>Edges\<close>,
  \<open>Nodes\<close>, \<open>Tips\<close> and the other traversals dereference the root without an error
  branch: on the fresh tree they panic (no error value is returned), and once a root has
  been set with \<open>SetRoot\<close> they return.
\<close>

theorem C10_fresh_tree_traversals_panic:
  "root_t (NewTree K) = None
   \<and> Rooted (NewTree K) = None \<and> Edges (NewTree K) = None \<and> Nodes (NewTree K) = None
   \<and> Tips (NewTree K) = None \<and> TipEdges (NewTree K) = None \<and> AllTipNames (NewTree K) = None
   \<and> Rooted (SetRoot (NewTree K) r) \<noteq> None \<and> Edges (SetRoot (NewTree K) r) \<noteq> None
   \<and> Nodes (SetRoot (NewTree K) r) \<noteq> None \<and> Tips (SetRoot (NewTree K) r) \<noteq> None
   \<and> TipEdges (SetRoot (NewTree K) r) \<noteq> None \<and> AllTipNames (SetRoot (NewTree K) r) \<noteq> None"
  by (simp add: NewTree_def SetRoot_def Rooted_def Edges_def Nodes_def Tips_def TipEdges_def
      AllTipNames_def)


text \<open>
  C1 (the code departs from the claim). The claim: a bootstrap tree whose tip names differ
  from the reference tree's makes \<open>ComputeValue\<close> return a non-nil error and stop. The
  code: on the stream \<open>(A,B,(C,E)); (A,C,(B,D));\<close> with the reference tree
  \<open>(A,B,(C,D));\<close>, the comparison of the first tree fails with \<open>ErrTipNames\<close>, the loop
  goes on, the second tree is processed and counted, and the function returns nil.
\<close>

theorem C1_mismatched_tree_is_skipped:
  "map_option (CompareTipIndexes (prepare_ref tree_AB_CD)) (ReinitIndexes (raw_tree tree_AB_CE))
     = Some (Some ErrTipNames)
   \<and> map_option (\<lambda>(st, er). (valChan st, processed st, er))
       (ComputeValue Delete_deref plain_supporter (prepare_ref tree_AB_CD)
          (edgesRecur tree_AB_CD) [tree_item tree_AB_CE, tree_item tree_AC_BD])
     = Some ([(1, 2, False)], 1, None)"
  by code_simp



text \<open>
  C9. The branch of \<open>Update_all_i_c_post_order_boot_tree\<close> guarded by
  \<open>min_dist[e.Id()] < 0\<close> is never taken, the entries being unsigned 16-bit values: the
  only error the function returns is the one about a terminal edge with a non-zero
  distance.
\<close>

theorem C9_min_dist_negative_unreachable:
  "Update_all_i_c_post_order_boot_tree rs ntips edges bootTree st \<noteq> Some (st', Some ErrMinDistNegative)
   \<and> (\<forall>st1 er. Update_all_i_c_post_order_boot_tree rs ntips edges bootTree st = Some (st1, Some er)
        \<longrightarrow> (\<exists>d. er = ErrTerminalEdge d))"
  by (auto simp: Update_all_i_c_post_order_boot_tree_def split: option.splits
      dest: check_min_dist_error)

theorem C9_min_dist_negative_unreachable_witness:
  "Update_all_i_c_post_order_boot_tree (\<lambda>_. (NewEdge gotree_sentinels)\<lparr>id_e := 0\<rparr>) 3
      [(0, Node ''A'' [])] (raw_tree (Node '''' []))
      \<lparr>i_matrix = [[]], c_matrix = [[]], hamming = [[]], min_dist = [5], min_dist_edge = [-1]\<rparr>
    = Some (\<lparr>i_matrix = [[]], c_matrix = [[]], hamming = [[]], min_dist = [5],
             min_dist_edge = [-1]\<rparr>, Some (ErrTerminalEdge 5))
   \<and> (\<exists>d. ErrTerminalEdge 5 = ErrTerminalEdge d)"
proof -
  have run: "Update_all_i_c_post_order_boot_tree (\<lambda>_. (NewEdge gotree_sentinels)\<lparr>id_e := 0\<rparr>) 3
      [(0, Node ''A'' [])] (raw_tree (Node '''' []))
      \<lparr>i_matrix = [[]], c_matrix = [[]], hamming = [[]], min_dist = [5], min_dist_edge = [-1]\<rparr>
    = Some (\<lparr>i_matrix = [[]], c_matrix = [[]], hamming = [[]], min_dist = [5],
             min_dist_edge = [-1]\<rparr>, Some (ErrTerminalEdge 5))"
    by (simp add: Update_all_i_c_post_order_boot_tree_def NewEdge_def right_tip_def Tip_def
        Nneigh_def raw_tree_def)
  from C9_min_dist_negative_unreachable [THEN conjunct2, rule_format, OF run] run
  show ?thesis by simp
qed


text \<open>
  C2 (amended). When \<open>removeTip\<close> leaves the former parent \<open>internal\<close> with the two
  neighbours \<open>n1\<close>, \<open>n2\<close> and the two edges \<open>b1\<close>, \<open>b2\<close>, and returns without
  error, the new edge between \<open>n1\<close> and \<open>n2\<close> has the length
  \<open>max(0, length1) + max(0, length2)\<close> as soon as one of the two lengths is defined
  (an undefined length counts for 0) and no length when both are undefined; it has the
  support \<open>max(sup1, sup2)\<close> as soon as one of the two supports is defined and neither
  \<open>n1\<close> nor \<open>n2\<close> is a tip, and no support otherwise.
\<close>

theorem C2_merged_edge:
  assumes "removeTip_detach tip h = Some (h1, Inr internal)"
    and "neigh (nodes_h h1 internal) = [n1, n2]" and "br (nodes_h h1 internal) = [b1, b2]"
    and "n1 \<noteq> internal" and "n2 \<noteq> internal"
    and "b1 < next_edge h" and "b2 < next_edge h"
    and "removeTip K tip h = Some (h', None)"
  shows "length_e (edges_h h' (next_edge h)) =
           (if length_e (edges_h h b1) \<noteq> NIL_LENGTH K \<or> length_e (edges_h h b2) \<noteq> NIL_LENGTH K
            then max 0 (length_e (edges_h h b1)) + max 0 (length_e (edges_h h b2))
            else NIL_LENGTH K)
       \<and> support_e (edges_h h' (next_edge h)) =
           (if (support_e (edges_h h b1) \<noteq> NIL_SUPPORT K \<or> support_e (edges_h h b2) \<noteq> NIL_SUPPORT K)
               \<and> 1 < length (neigh (nodes_h h' n1)) \<and> 1 < length (neigh (nodes_h h' n2))
            then max (support_e (edges_h h b1)) (support_e (edges_h h b2))
            else NIL_SUPPORT K)
       \<and> {left (edges_h h' (next_edge h)), right (edges_h h' (next_edge h))} = {Some n1, Some n2}"
proof -
  from assms have run: "removeTip_case2 K internal h1 = Some (h', None)"
    by (simp add: removeTip_def)
  from removeTip_detach_frame [OF assms(1)] assms(6,7)
  have "b1 < next_edge h1" "b2 < next_edge h1" and fr: "next_edge h1 = next_edge h"
    "\<And>a. length_e (edges_h h1 a) = length_e (edges_h h a)"
    "\<And>a. support_e (edges_h h1 a) = support_e (edges_h h a)"
    by auto
  from removeTip_case2_merge [OF run assms(2,3,4,5) this(1,2)]
  show ?thesis unfolding fr .
qed


theorem C2_merged_edge_witness:
  "\<exists>h'. removeTip gotree_sentinels 2 heap_ex = Some (h', None)
     \<and> length_e (edges_h h' 7) = 2 \<and> support_e (edges_h h' 7) = 9 / 10
     \<and> {left (edges_h h' 7), right (edges_h h' 7)} = {Some 0, Some 3}"
proof -
  have "map_option (\<lambda>(h1, r). (r, neigh (nodes_h h1 1), br (nodes_h h1 1)))
          (removeTip_detach 2 heap_ex) = Some (Inr 1, [0, 3], [0, 2])"
    by code_simp
  then obtain h1 where d: "removeTip_detach 2 heap_ex = Some (h1, Inr 1)"
    and ns: "neigh (nodes_h h1 1) = [0, 3]" and bs: "br (nodes_h h1 1) = [0, 2]"
    by auto
  have "map_option (\<lambda>(h', er). (er, length (neigh (nodes_h h' 0)), length (neigh (nodes_h h' 3))))
          (removeTip gotree_sentinels 2 heap_ex) = Some (None, 3, 3)"
    by code_simp
  then obtain h' where r: "removeTip gotree_sentinels 2 heap_ex = Some (h', None)"
    and deg: "length (neigh (nodes_h h' 0)) = 3" "length (neigh (nodes_h h' 3)) = 3"
    by auto
  have vals: "next_edge heap_ex = 7" "length_e (edges_h heap_ex 0) = 2"
    "length_e (edges_h heap_ex 2) = -1" "support_e (edges_h heap_ex 0) = 9 / 10"
    "support_e (edges_h heap_ex 2) = -1" "NIL_LENGTH gotree_sentinels = -1"
    "NIL_SUPPORT gotree_sentinels = -1"
    by (simp_all add: heap_ex_def mk_edge_def gotree_sentinels_def)
  from C2_merged_edge [OF d ns bs _ _ _ _ r] deg
  have "length_e (edges_h h' 7) = 2 \<and> support_e (edges_h h' 7) = 9 / 10
     \<and> {left (edges_h h' 7), right (edges_h h' 7)} = {Some 0, Some 3}"
    by (simp add: vals)
  with r show ?thesis by blast
qed

text \<open>
  C2 as stated fails: on the heap above, removing the tip 2 merges the edge 0 (length 2,
  support 0.9) and the edge 2 (no length, no support) into the new edge 7 between the
  internal nodes 0 and 3. Only one length and only one support are defined, and the new
  edge has the length 2 and the support 0.9: neither stays unset.
\<close>

theorem C2_one_defined_counterexample:
  "length_e (edges_h heap_ex 0) \<noteq> NIL_LENGTH gotree_sentinels
   \<and> length_e (edges_h heap_ex 2) = NIL_LENGTH gotree_sentinels
   \<and> support_e (edges_h heap_ex 0) \<noteq> NIL_SUPPORT gotree_sentinels
   \<and> support_e (edges_h heap_ex 2) = NIL_SUPPORT gotree_sentinels
   \<and> map_option (\<lambda>(h', er). (er, length_e (edges_h h' 7) = NIL_LENGTH gotree_sentinels,
          support_e (edges_h h' 7) = NIL_SUPPORT gotree_sentinels,
          length_e (edges_h h' 7), support_e (edges_h h' 7),
          left (edges_h h' 7), right (edges_h h' 7)))
        (removeTip gotree_sentinels 2 heap_ex)
      = Some (None, False, False, 2, 9 / 10, Some 0, Some 3)"
  by code_simp


text \<open>
  C4 (amended). The second pass returns, and for every reference edge \<open>i\<close> and every
  bootstrap edge \<open>j\<close> the entry \<open>hamming[i][j]\<close> is the value the code computes from
  \<open>tipsRight(i)\<close>, \<open>C[i][j]\<close> and \<open>I[i][j]\<close> in \<open>uint16\<close>. It is
  \<open>min(H, total - H)\<close> with \<open>H = tipsRight(i) + C[i][j] - I[i][j]\<close> in exact
  arithmetic when the number of tips is below 65536 and \<open>H\<close> lies between 0 and the
  number of tips. \<open>min_dist[i]\<close> is the least of its value before the pass and of the
  entries of the row \<open>i\<close>; when it has decreased, \<open>min_dist_edge[i]\<close> is the id of a
  bootstrap edge that attains it, and it is unchanged otherwise.
\<close>

theorem C4_hamming_and_min_dist:
  assumes root: "root_t bootTree = Some r"
    and wide: "dp_wide st (length edges) nb"
    and rng: "\<forall>j\<in>set (ids (est bootTree) (edgesRecur r)). 0 \<le> j \<and> j < int nb"
    and dist: "distinct (ids (est bootTree) (edgesRecur r))"
    and refids: "\<forall>e\<in>set edges. 0 \<le> id_e (rs (fst e)) \<and> nat (id_e (rs (fst e))) < length (min_dist st)"
  shows "\<exists>st' er. Update_all_i_c_post_order_boot_tree rs ntips edges bootTree st = Some (st', er)
     \<and> (\<forall>i<length edges.
          (\<forall>j\<in>set (ids (est bootTree) (edgesRecur r)).
             rd (hamming st') (int i) j
               = hamming_value ntips (fst (NumTipsRight (rs (fst (edges ! i)))))
                   (rd (c_matrix st') (int i) j) (rd (i_matrix st') (int i) j)
           \<and> (ntips < 65536
                \<and> 0 \<le> exact_hamming (fst (NumTipsRight (rs (fst (edges ! i)))))
                          (rd (c_matrix st') (int i) j) (rd (i_matrix st') (int i) j)
                \<and> exact_hamming (fst (NumTipsRight (rs (fst (edges ! i)))))
                          (rd (c_matrix st') (int i) j) (rd (i_matrix st') (int i) j) \<le> int ntips
              \<longrightarrow> uint (rd (hamming st') (int i) j)
                  = min (exact_hamming (fst (NumTipsRight (rs (fst (edges ! i)))))
                          (rd (c_matrix st') (int i) j) (rd (i_matrix st') (int i) j))
                        (int ntips - exact_hamming (fst (NumTipsRight (rs (fst (edges ! i)))))
                          (rd (c_matrix st') (int i) j) (rd (i_matrix st') (int i) j))))
        \<and> min_dist st' ! i
            = Min (insert (min_dist st ! i)
                ((\<lambda>j. rd (hamming st') (int i) j) ` set (ids (est bootTree) (edgesRecur r))))
        \<and> (if min_dist st' ! i < min_dist st ! i
            then min_dist_edge st' ! i \<in> set (ids (est bootTree) (edgesRecur r))
                 \<and> rd (hamming st') (int i) (min_dist_edge st' ! i) = min_dist st' ! i
            else min_dist_edge st' ! i = min_dist_edge st ! i))"
proof -
  let ?bs = "est bootTree"
  let ?J = "set (ids ?bs (edgesRecur r))"
  obtain nm ks where r: "r = Node nm ks" by (cases r)
  from root_boot_post [of st edges nb ?bs ks rs ntips] wide rng dist
  obtain st' where run: "forM ks (\<lambda>(a, child). update_i_c_post_order_boot_tree rs ntips edges ?bs a child) st = Some st'"
    and post: "boot_post rs ntips edges ?J {} (set (ids ?bs (filter right_tip (edgesRecur r)))) st st'"
    unfolding r by auto
  have "length (min_dist st') = length (min_dist st)"
    using boot_postD(1) [OF post] by (simp add: dp_same_dims_def)
  with check_min_dist_total [of edges rs "min_dist st'"] refids
  obtain er where chk: "check_min_dist rs edges (min_dist st') = Some er" by auto
  have res: "Update_all_i_c_post_order_boot_tree rs ntips edges bootTree st = Some (st', er)"
    using root run chk by (simp add: Update_all_i_c_post_order_boot_tree_def r)
  have A: "rd (hamming st') (int i) j
               = hamming_value ntips (fst (NumTipsRight (rs (fst (edges ! i)))))
                   (rd (c_matrix st') (int i) j) (rd (i_matrix st') (int i) j)"
    if "i < length edges" "j \<in> ?J" for i j
    using boot_postD(6) [OF post that] by (simp add: hval_def)
  have B: "min_dist st' ! i
            = Min (insert (min_dist st ! i) ((\<lambda>j. rd (hamming st') (int i) j) ` ?J))"
    if "i < length edges" for i
  proof (rule Min_eqI [symmetric])
    show "finite (insert (min_dist st ! i) ((\<lambda>j. rd (hamming st') (int i) j) ` ?J))" by simp
    show "min_dist st' ! i \<le> y" if "y \<in> insert (min_dist st ! i) ((\<lambda>j. rd (hamming st') (int i) j) ` ?J)" for y
      using that boot_postD(7) [OF post \<open>i < length edges\<close>] by auto
    show "min_dist st' ! i \<in> insert (min_dist st ! i) ((\<lambda>j. rd (hamming st') (int i) j) ` ?J)"
      using boot_postD(7) [OF post \<open>i < length edges\<close>] by auto
  qed
  note C = boot_postD(8) [OF post]
  have D: "uint (rd (hamming st') (int i) j)
                  = min (exact_hamming (fst (NumTipsRight (rs (fst (edges ! i)))))
                          (rd (c_matrix st') (int i) j) (rd (i_matrix st') (int i) j))
                        (int ntips - exact_hamming (fst (NumTipsRight (rs (fst (edges ! i)))))
                          (rd (c_matrix st') (int i) j) (rd (i_matrix st') (int i) j))"
    if "i < length edges" "j \<in> ?J" and "ntips < 65536
                \<and> 0 \<le> exact_hamming (fst (NumTipsRight (rs (fst (edges ! i)))))
                          (rd (c_matrix st') (int i) j) (rd (i_matrix st') (int i) j)
                \<and> exact_hamming (fst (NumTipsRight (rs (fst (edges ! i)))))
                          (rd (c_matrix st') (int i) j) (rd (i_matrix st') (int i) j) \<le> int ntips"
    for i j
    unfolding A [OF that(1,2)] using that(3) by (intro hamming_value_exact) blast+
  show ?thesis
  proof (intro exI conjI allI impI ballI)
    show "Update_all_i_c_post_order_boot_tree rs ntips edges bootTree st = Some (st', er)" by fact
  qed (use A B C D in blast)+
qed

theorem C4_hamming_and_min_dist_witness:
  "\<exists>st' er. Update_all_i_c_post_order_boot_tree (est (prepare_ref tree_AB_CD)) 4
        (edgesRecur tree_AB_CD) (prepare_ref tree_AC_BD) dp_after_ref = Some (st', er)
     \<and> fst (NumTipsRight (est (prepare_ref tree_AB_CD) (fst (edgesRecur tree_AB_CD ! 2)))) = 2
     \<and> rd (c_matrix st') 2 2 = 1 \<and> rd (i_matrix st') 2 2 = 1
     \<and> uint (rd (hamming st') 2 2) = min (exact_hamming 2 1 1) (4 - exact_hamming 2 1 1)
     \<and> min_dist st' ! 2 = Min (insert (min_dist dp_after_ref ! 2)
           ((\<lambda>j. rd (hamming st') 2 j) ` {0, 1, 2, 3, 4}))
     \<and> min_dist st' ! 2 = 1 \<and> min_dist_edge st' ! 2 = 0"
proof -
  let ?rs = "est (prepare_ref tree_AB_CD)"
  let ?es = "edgesRecur tree_AB_CD"
  have root: "root_t (prepare_ref tree_AC_BD) = Some tree_AC_BD" by code_simp
  have idsB: "ids (est (prepare_ref tree_AC_BD)) (edgesRecur tree_AC_BD) = [0, 1, 2, 3, 4]"
    by code_simp
  have len: "length ?es = 5" by code_simp
  have wide: "dp_wide dp_after_ref (length ?es) 5" by code_simp
  have rng: "\<forall>j\<in>set (ids (est (prepare_ref tree_AC_BD)) (edgesRecur tree_AC_BD)).
      0 \<le> j \<and> j < int 5"
    by (simp add: idsB)
  have dist: "distinct (ids (est (prepare_ref tree_AC_BD)) (edgesRecur tree_AC_BD))"
    by (simp add: idsB)
  have refids: "\<forall>e\<in>set ?es. 0 \<le> id_e (?rs (fst e))
      \<and> nat (id_e (?rs (fst e))) < length (min_dist dp_after_ref)"
    by code_simp
  have nt: "fst (NumTipsRight (?rs (fst (?es ! 2)))) = 2" by code_simp
  have ev: "map_option (\<lambda>(s, e). (rd (c_matrix s) 2 2, rd (i_matrix s) 2 2, min_dist s ! 2,
         min_dist_edge s ! 2))
       (Update_all_i_c_post_order_boot_tree ?rs 4 ?es (prepare_ref tree_AC_BD) dp_after_ref)
     = Some (1, 1, 1, 0)"
    by code_simp
  from C4_hamming_and_min_dist [OF root wide rng dist refids]
  obtain st' er where run: "Update_all_i_c_post_order_boot_tree ?rs 4 ?es
        (prepare_ref tree_AC_BD) dp_after_ref = Some (st', er)"
    and props: "\<forall>i<length ?es.
        (\<forall>j\<in>set (ids (est (prepare_ref tree_AC_BD)) (edgesRecur tree_AC_BD)).
           rd (hamming st') (int i) j
             = hamming_value 4 (fst (NumTipsRight (?rs (fst (?es ! i)))))
                 (rd (c_matrix st') (int i) j) (rd (i_matrix st') (int i) j)
           \<and> ((4::nat) < 65536
               \<and> 0 \<le> exact_hamming (fst (NumTipsRight (?rs (fst (?es ! i)))))
                       (rd (c_matrix st') (int i) j) (rd (i_matrix st') (int i) j)
               \<and> exact_hamming (fst (NumTipsRight (?rs (fst (?es ! i)))))
                       (rd (c_matrix st') (int i) j) (rd (i_matrix st') (int i) j) \<le> int 4
              \<longrightarrow> uint (rd (hamming st') (int i) j)
                  = min (exact_hamming (fst (NumTipsRight (?rs (fst (?es ! i)))))
                           (rd (c_matrix st') (int i) j) (rd (i_matrix st') (int i) j))
                        (int 4 - exact_hamming (fst (NumTipsRight (?rs (fst (?es ! i)))))
                           (rd (c_matrix st') (int i) j) (rd (i_matrix st') (int i) j))))
        \<and> min_dist st' ! i = Min (insert (min_dist dp_after_ref ! i)
             ((\<lambda>j. rd (hamming st') (int i) j)
                ` set (ids (est (prepare_ref tree_AC_BD)) (edgesRecur tree_AC_BD))))
        \<and> (if min_dist st' ! i < min_dist dp_after_ref ! i
           then min_dist_edge st' ! i \<in> set (ids (est (prepare_ref tree_AC_BD)) (edgesRecur tree_AC_BD))
                \<and> rd (hamming st') (int i) (min_dist_edge st' ! i) = min_dist st' ! i
           else min_dist_edge st' ! i = min_dist_edge dp_after_ref ! i)"
    by blast
  from ev run have vals: "rd (c_matrix st') 2 2 = 1" "rd (i_matrix st') 2 2 = 1"
      "min_dist st' ! 2 = 1" "min_dist_edge st' ! 2 = 0"
    by simp_all
  have two: "(2::nat) < length ?es" by (simp add: len)
  have in2: "(2::int) \<in> set (ids (est (prepare_ref tree_AC_BD)) (edgesRecur tree_AC_BD))"
    by (simp add: idsB)
  from props two in2 have
    p1: "(4::nat) < 65536
               \<and> 0 \<le> exact_hamming (fst (NumTipsRight (?rs (fst (?es ! 2)))))
                       (rd (c_matrix st') (int 2) 2) (rd (i_matrix st') (int 2) 2)
               \<and> exact_hamming (fst (NumTipsRight (?rs (fst (?es ! 2)))))
                       (rd (c_matrix st') (int 2) 2) (rd (i_matrix st') (int 2) 2) \<le> int 4
              \<longrightarrow> uint (rd (hamming st') (int 2) 2)
                  = min (exact_hamming (fst (NumTipsRight (?rs (fst (?es ! 2)))))
                           (rd (c_matrix st') (int 2) 2) (rd (i_matrix st') (int 2) 2))
                        (int 4 - exact_hamming (fst (NumTipsRight (?rs (fst (?es ! 2)))))
                           (rd (c_matrix st') (int 2) 2) (rd (i_matrix st') (int 2) 2))"
    by blast
  from props two have
    p2: "min_dist st' ! 2 = Min (insert (min_dist dp_after_ref ! 2)
             ((\<lambda>j. rd (hamming st') (int 2) j)
                ` set (ids (est (prepare_ref tree_AC_BD)) (edgesRecur tree_AC_BD))))"
    by blast
  have s5: "set [0, 1, 2, 3, 4::int] = {0, 1, 2, 3, 4}" by simp
  have p2': "min_dist st' ! 2 = Min (insert (min_dist dp_after_ref ! 2)
           ((\<lambda>j. rd (hamming st') 2 j) ` {0, 1, 2, 3, 4}))"
    using p2 unfolding idsB s5 by simp
  from p1 have "uint (rd (hamming st') 2 2) = min (exact_hamming 2 1 1) (4 - exact_hamming 2 1 1)"
    by (simp add: vals nt exact_hamming_def)
  with run nt vals p2' show ?thesis by blast
qed

text \<open>
  C4 as stated fails beyond the range of \<open>uint16\<close>: with 70000 tips, a reference edge
  with 3000 tips on its right, \<open>C = 1\<close> and \<open>I = 0\<close>, the exact value is
  \<open>min(3001, 66999) = 3001\<close> and the entry stored is 1463.
\<close>

theorem C4_wraparound_counterexample:
  "fst (NumTipsRight edge_3000) = 3000
   \<and> map_option (\<lambda>(st', er). (uint (rd (hamming st') 0 0), uint (rd (c_matrix st') 0 0),
          uint (rd (i_matrix st') 0 0), er))
        (Update_all_i_c_post_order_boot_tree (\<lambda>_. edge_3000) 70000
           [(0, Node '''' [(1, Node ''A'' []), (2, Node ''B'' [])])] boot_one_tip dp_one)
      = Some (1463, 1, 0, None)
   \<and> min (exact_hamming 3000 1 0) (70000 - exact_hamming 3000 1 0) = 3001"
  by (simp add: NumTipsRight_def edge_3000_def Count_def NewEdge_def boot_one_tip_def dp_one_def
      Update_all_i_c_post_order_boot_tree_def Tip_def Nneigh_def boot_hamming_cell_def cell_ok_def
      rd_def wr_def hamming_value_def right_tip_def exact_hamming_def Let_def)


text \<open>
  C3 (the code departs from the claim). The claim: when a terminal edge of the reference
  tree ends with a non-zero minimum distance, the error that
  \<open>Update_all_i_c_post_order_boot_tree\<close> returns is fatal. The code: on the reference
  tree \<open>(A,B,(C,D));\<close> with empty bitsets and the bootstrap tree \<open>(A,C,(B,D));\<close>, the
  second pass, run on the buffers \<open>ComputeValue\<close> hands it, leaves the distance 1 on the
  edge of the tip \<open>A\<close> and returns the error; \<open>ComputeValue\<close> drops what the call
  returns: the tree is processed and counted, a value is sent for the internal edge, and
  the function returns nil.
\<close>

theorem C3_terminal_edge_error_dropped:
  "(case Update_all_i_c_post_order_ref_tree unfilled_ref (edgesRecur tree_AC_BD)
            (alloc_rows 5 4 5 (bufs (cv_init 5 4))) of
      None \<Rightarrow> None
    | Some b1 \<Rightarrow>
        map_option (\<lambda>(b, er). (min_dist b ! 0, er))
          (Update_all_i_c_post_order_boot_tree (est unfilled_ref) 4 (edgesRecur tree_AB_CD)
             (prepare_ref tree_AC_BD) b1))
     = Some (1, Some (ErrTerminalEdge 1))
   \<and> map_option (\<lambda>(st, er). (valChan st, processed st, er))
       (ComputeValue Delete_deref plain_supporter unfilled_ref (edgesRecur tree_AB_CD)
          [tree_item tree_AC_BD])
     = Some ([(0, 2, False)], 1, None)"
  by code_simp

text \<open>
  C5 (amended). On a tree whose root is not a tip, whose index holds every tip name, whose
  edges are distinct and all have a bitset, \<open>UpdateBitSet\<close> returns without an error;
  the union of the bitsets of the edges of the root is the set of the ordinals of all the
  tips; these bitsets are pairwise disjoint when the tips have pairwise distinct ordinals
  (so pairwise distinct names); and a second call leaves the tree as it is.
\<close>

theorem C5_root_bitsets_partition:
  assumes root: "root_t t = Some r" and nt: "\<not> Tip True r"
    and names: "AllTipNames t = Some names"
    and idx: "set names \<subseteq> dom (map_of (tipIndex t))"
    and alloc: "\<forall>e\<in>set (edgesRecur r). bitset_e (est t (fst e)) \<noteq> None"
    and dist: "distinct (map fst (edgesRecur r))"
  shows "\<exists>t'. UpdateBitSet t = Some (t', None)
      \<and> (\<Union>k\<in>set (kids r). edge_bits t' (fst k))
          = {i. \<exists>nm\<in>set names. map_of (tipIndex t) nm = Some i}
      \<and> (distinct (map (map_of (tipIndex t)) names) \<longrightarrow>
           (\<forall>i j. i < j \<and> j < length (kids r) \<longrightarrow>
              edge_bits t' (fst (kids r ! i)) \<inter> edge_bits t' (fst (kids r ! j)) = {}))
      \<and> UpdateBitSet t' = Some (t', None)"
proof -
  obtain rn rks where r: "r = Node rn rks" by (cases r)
  let ?ix = "tipIndex t" and ?Es = "edgesRecur_kids rks"
  have nm: "names = allTipNamesRecur_kids rks"
    using names nt by (simp add: AllTipNames_def root r Tip_def Nneigh_def)
  have tn: "set (allTipNamesRecur_kids rks) \<subseteq> dom (map_of ?ix)" using idx nm by simp
  have al: "allocated (est t) (fst ` set ?Es)" using alloc by (auto simp: allocated_def r)
  have d: "distinct (map fst ?Es)" using dist by (simp add: r)
  from UpdateBitSet_edges_filled [OF al d tn]
  obtain s' where run: "UpdateBitSet_edges ?ix rks (est t) = Some (s', None)"
    and f: "filled ?ix ?Es (est t) s'" by blast
  let ?t' = "t\<lparr>est := s'\<rparr>"
  have r1: "UpdateBitSet t = Some (?t', None)"
    using run by (simp add: UpdateBitSet_def root r)
  have eb: "edge_bits ?t' (fst k) = set (tip_ords ?ix (snd k))" if "k \<in> set rks" for k
    by (rule filled_edge_bits [OF f al kids_in_edgesRecur_kids [OF that]])
  have so: "map Some (tip_ords_kids ?ix rks) = map (map_of ?ix) names"
    using tip_ords_names(2) [OF tn] nm by simp
  have "(\<Union>k\<in>set rks. edge_bits ?t' (fst k)) = set (tip_ords_kids ?ix rks)"
    using eb tip_ords_kids_Union [of ?ix rks] by simp
  also have "\<dots> = {i. \<exists>nm\<in>set names. map_of ?ix nm = Some i}"
  proof -
    have "Some ` set (tip_ords_kids ?ix rks) = map_of ?ix ` set names"
      using arg_cong [OF so, of set] by simp
    then have "\<And>i. i \<in> set (tip_ords_kids ?ix rks) \<longleftrightarrow> Some i \<in> map_of ?ix ` set names"
      by (metis image_iff option.inject)
    then show ?thesis by (auto simp: image_iff) (metis+)
  qed
  finally have un: "(\<Union>k\<in>set (kids r). edge_bits ?t' (fst k))
      = {i. \<exists>nm\<in>set names. map_of ?ix nm = Some i}"
    by (simp add: r)
  have dj: "edge_bits ?t' (fst (kids r ! i)) \<inter> edge_bits ?t' (fst (kids r ! j)) = {}"
    if dn: "distinct (map (map_of ?ix) names)" and ij: "i < j \<and> j < length (kids r)" for i j
  proof -
    from dn so have "distinct (map Some (tip_ords_kids ?ix rks))" by simp
    then have dd: "distinct (tip_ords_kids ?ix rks)" by (simp add: distinct_map)
    from ij have i: "i < j" and j: "j < length rks" by (simp_all add: r)
    have "rks ! i \<in> set rks" "rks ! j \<in> set rks" using i j by simp_all
    then show ?thesis using tip_ords_kids_disjoint [OF dd i j] by (simp add: r eb)
  qed
  have al': "allocated s' (fst ` set ?Es)" by (rule filled_allocated [OF f al])
  from UpdateBitSet_edges_filled [OF al' d tn]
  obtain s'' where run2: "UpdateBitSet_edges ?ix rks s' = Some (s'', None)"
    and f2: "filled ?ix ?Es s' s''" by blast
  have "s'' = s'" by (rule filled_idem [OF f f2])
  with run2 have r2: "UpdateBitSet ?t' = Some (?t', None)"
    by (simp add: UpdateBitSet_def root r)
  from r1 un dj r2 show ?thesis by blast
qed

theorem C5_root_bitsets_partition_witness:
  "\<exists>t'. UpdateBitSet (indexed_tree tree_AB_CD) = Some (t', None)
      \<and> (\<Union>k\<in>set (kids tree_AB_CD). edge_bits t' (fst k)) = {0, 1, 2, 3}
      \<and> edge_bits t' (fst (kids tree_AB_CD ! 0)) \<inter> edge_bits t' (fst (kids tree_AB_CD ! 2)) = {}
      \<and> UpdateBitSet t' = Some (t', None)"
proof -
  let ?t = "indexed_tree tree_AB_CD"
  let ?names = "[''A'', ''B'', ''C'', ''D'']"
  have nt: "\<not> Tip True tree_AB_CD" by code_simp
  have idx: "set ?names \<subseteq> dom (map_of (tipIndex ?t))"
    by (simp add: indexed_tree_AB_CD(1))
  have alloc: "\<forall>e\<in>set (edgesRecur tree_AB_CD). bitset_e (est ?t (fst e)) \<noteq> None"
    by code_simp
  have dist: "distinct (map fst (edgesRecur tree_AB_CD))" by code_simp
  have dn: "distinct (map (map_of (tipIndex ?t)) ?names)"
    by (simp add: indexed_tree_AB_CD(1))
  have len: "(0::nat) < 2 \<and> 2 < length (kids tree_AB_CD)" by code_simp
  have ords: "{i. \<exists>nm\<in>set ?names. map_of (tipIndex ?t) nm = Some i} = {0, 1, 2, 3}"
    by (auto simp: indexed_tree_AB_CD(1))
  from C5_root_bitsets_partition [OF indexed_tree_AB_CD(3) nt indexed_tree_AB_CD(2) idx alloc dist]
  obtain t' where "UpdateBitSet ?t = Some (t', None)"
    "(\<Union>k\<in>set (kids tree_AB_CD). edge_bits t' (fst k))
        = {i. \<exists>nm\<in>set ?names. map_of (tipIndex ?t) nm = Some i}"
    "distinct (map (map_of (tipIndex ?t)) ?names) \<longrightarrow>
       (\<forall>i j. i < j \<and> j < length (kids tree_AB_CD) \<longrightarrow>
          edge_bits t' (fst (kids tree_AB_CD ! i)) \<inter> edge_bits t' (fst (kids tree_AB_CD ! j)) = {})"
    "UpdateBitSet t' = Some (t', None)"
    by blast
  with dn len ords show ?thesis by (intro exI [of _ t']) simp
qed

text \<open>
  C5 as stated fails on \<open>(A,A,B);\<close>: the index maps \<open>A\<close> to 1 and \<open>B\<close> to 2, every
  edge has a bitset, \<open>UpdateBitSet\<close> returns without an error, and the bitsets of the
  first two edges of the root both hold the ordinal 1.
\<close>

theorem C5_duplicate_names_counterexample:
  "map_option tipIndex (UpdateTipIndex (raw_tree tree_AAB)) = Some [(''A'', 1), (''B'', 2)]
   \<and> list_all (\<lambda>e. bitset_e (est (indexed_tree tree_AAB) (fst e)) = Some (bitset_New 2))
       (edgesRecur tree_AAB)
   \<and> map_option (\<lambda>(t', er). (er, map (\<lambda>k. edge_bits t' (fst k)) (kids tree_AAB),
         edge_bits t' 0 \<inter> edge_bits t' 1))
       (UpdateBitSet (indexed_tree tree_AAB))
     = Some (None, [{1}, {1}, {2}], {1})"
  by code_simp


subsection \<open>Facts about \<open>Resolve\<close>\<close>

lemma edgesRecur_kids_concat: "edgesRecur_kids ks = concat (map (\<lambda>k. k # edgesRecur (snd k)) ks)"
  by (induction ks) auto

lemma allTipNamesRecur_kids_concat:
  "allTipNamesRecur_kids ks = concat (map (\<lambda>k. allTipNamesRecur False (snd k)) ks)"
  by (induction ks) auto

lemma edgesRecur_kids_append [simp]:
  "edgesRecur_kids (xs @ ys) = edgesRecur_kids xs @ edgesRecur_kids ys"
  by (simp add: edgesRecur_kids_concat)

lemma allTipNamesRecur_kids_append [simp]:
  "allTipNamesRecur_kids (xs @ ys) = allTipNamesRecur_kids xs @ allTipNamesRecur_kids ys"
  by (simp add: allTipNamesRecur_kids_concat)





















lemma edgesRecur_kids_kids [simp]: "edgesRecur_kids (kids c) = edgesRecur c"
  by (cases c) simp




end
